theory Spec2Isabelle
  imports Complex_Main "HOL-Library.Word"
begin

unbundle bit_operations_syntax

section \<open>Python values used by icat\<close>

text \<open>
  Byte strings (\<open>bytes\<close>) are lists of 8-bit characters; Python integers are \<open>int\<close>.
  Exceptions are values of the type \<open>error\<close>, and a function that may raise returns
  \<open>error + 'a\<close> with \<open>Inl\<close> for the exception.
\<close>

type_synonym bytes = string

datatype val = IntV int | StrV string

datatype error =
    ZeroDivisionError
  | OverflowError
  | TypeError
  | KeyError
  | OSError
  | OpenFailed string string
  | SystemExit val

abbreviation ESC :: char where
  "ESC \<equiv> CHR 0x1B"

abbreviation BSL :: char where
  "BSL \<equiv> CHR 0x5C"

subsection \<open>Command dictionaries\<close>

text \<open>
  A command is a Python \<open>dict\<close> from one-letter keys to integers or strings. The order
  of insertion matters for the bytes on the wire, so it is an association list:
  assigning to a key that is present replaces the value in place, assigning to a new key
  appends.
\<close>

type_synonym cmd = "(string \<times> val) list"

fun dict_set :: "cmd \<Rightarrow> string \<Rightarrow> val \<Rightarrow> cmd" where
  "dict_set [] k v = [(k, v)]"
| "dict_set ((k', v') # kvs) k v =
     (if k' = k then (k, v) # kvs else (k', v') # dict_set kvs k v)"

definition dict_get :: "cmd \<Rightarrow> string \<Rightarrow> val option" where
  "dict_get c k = map_of c k"

subsection \<open>\<open>standard_b64encode\<close>\<close>

text \<open>
  The standard base64 alphabet: \<open>A-Z\<close>, \<open>a-z\<close>, \<open>0-9\<close>, \<open>+\<close>, \<open>/\<close>, with \<open>=\<close> padding
  the last group to four characters.
\<close>

definition b64_char :: "nat \<Rightarrow> char" where
  "b64_char i =
     (if i < 26 then char_of (65 + i)
      else if i < 52 then char_of (71 + i)
      else if i < 62 then char_of (i - 4)
      else if i = 62 then CHR ''+'' else CHR ''/'')"

definition b64_val :: "char \<Rightarrow> nat" where
  "b64_val c =
     (let n = (of_char c :: nat) in
      if 65 \<le> n \<and> n < 91 then n - 65
      else if 97 \<le> n \<and> n < 123 then n - 71
      else if 48 \<le> n \<and> n < 58 then n + 4
      else if c = CHR ''+'' then 62 else 63)"

fun standard_b64encode :: "bytes \<Rightarrow> bytes" where
  "standard_b64encode [] = []"
| "standard_b64encode [a] =
     [b64_char (of_char a div 4), b64_char ((of_char a mod 4) * 16), CHR ''='', CHR ''='']"
| "standard_b64encode [a, b] =
     [b64_char (of_char a div 4),
      b64_char ((of_char a mod 4) * 16 + of_char b div 16),
      b64_char ((of_char b mod 16) * 4), CHR ''='']"
| "standard_b64encode (a # b # c # rest) =
     [b64_char (of_char a div 4),
      b64_char ((of_char a mod 4) * 16 + of_char b div 16),
      b64_char ((of_char b mod 16) * 4 + of_char c div 64),
      b64_char (of_char c mod 64)] @ standard_b64encode rest"

text \<open>The receiver's side: decoding groups of four characters.\<close>

fun standard_b64decode :: "bytes \<Rightarrow> bytes" where
  "standard_b64decode (p # q # r # s # rest) =
     (if r = CHR ''='' then
        [char_of (b64_val p * 4 + b64_val q div 16)]
      else if s = CHR ''='' then
        [char_of (b64_val p * 4 + b64_val q div 16),
         char_of ((b64_val q mod 16) * 16 + b64_val r div 4)]
      else
        [char_of (b64_val p * 4 + b64_val q div 16),
         char_of ((b64_val q mod 16) * 16 + b64_val r div 4),
         char_of ((b64_val r mod 4) * 64 + b64_val s)]) @ standard_b64decode rest"
| "standard_b64decode _ = []"

section \<open>Transport encoder\<close>

text \<open>
  Standard output is the sequence of writes made to it: a graphics command written by
  \<open>write_gr_cmd\<close> (the command dictionary as it is at the call, and the payload), or raw
  bytes. \<open>render\<close> gives the bytes of a write.
\<close>

datatype out = Frame cmd bytes | Raw bytes

fun digits :: "nat \<Rightarrow> string" where
  "digits n = (if n < 10 then [char_of (48 + n)] else digits (n div 10) @ [char_of (48 + n mod 10)])"

declare digits.simps [simp del]

definition str_int :: "int \<Rightarrow> string" where
  "str_int i = (if i < 0 then CHR ''-'' # digits (nat (- i)) else digits (nat i))"

fun format_val :: "val \<Rightarrow> string" where
  "format_val (IntV i) = str_int i"
| "format_val (StrV s) = s"

fun join :: "string \<Rightarrow> string list \<Rightarrow> string" where
  "join sep [] = []"
| "join sep [x] = x"
| "join sep (x # y # ys) = x @ sep @ join sep (y # ys)"

definition gr_cmd_bytes :: "cmd \<Rightarrow> bytes \<Rightarrow> bytes" where
  "gr_cmd_bytes c payload =
     [ESC, CHR ''_'', CHR ''G''] @ join '','' (map (\<lambda>(k, v). k @ ''='' @ format_val v) c)
       @ '';'' @ payload @ [ESC, BSL]"

fun render :: "out \<Rightarrow> bytes" where
  "render (Frame c payload) = gr_cmd_bytes c payload"
| "render (Raw b) = b"

definition write_gr_cmd :: "cmd \<Rightarrow> bytes \<Rightarrow> out list \<Rightarrow> out list" where
  "write_gr_cmd c payload stdout = stdout @ [Frame c payload]"

text \<open>
  The loop of \<open>write_chunked\<close>: while data is left, cut 4096 bytes off, set \<open>m\<close> to 1 when
  more is left and to 0 otherwise, write the frame, clear the command.
\<close>

function write_chunks :: "cmd \<Rightarrow> bytes \<Rightarrow> out list \<Rightarrow> cmd \<times> out list" where
  "write_chunks c data stdout =
     (if data = [] then (c, stdout)
      else write_chunks []
             (drop 4096 data)
             (write_gr_cmd
                (dict_set c ''m'' (IntV (if drop 4096 data \<noteq> [] then 1 else 0)))
                (take 4096 data) stdout))"
  by pat_completeness auto
termination
  by (relation "measure (\<lambda>(c, data, stdout). length data)") auto

declare write_chunks.simps [simp del]

text \<open>
  \<open>zlib.compress\<close> is a parameter \<open>compress\<close>: the bytes it produces depend on the
  library's strategy, and its contract is that inflating them gives the input back.
\<close>

definition write_chunked ::
  "(bytes \<Rightarrow> bytes) \<Rightarrow> string \<Rightarrow> cmd \<Rightarrow> bytes \<Rightarrow> out list \<Rightarrow> cmd \<times> out list" where
  "write_chunked compress mode c data stdout =
     (if mode \<noteq> ''PNG''
      then write_chunks (dict_set c ''o'' (StrV ''z'')) (standard_b64encode (compress data)) stdout
      else write_chunks c (standard_b64encode data) stdout)"

text \<open>
  The framing in the specification's words: the encoded text is cut into consecutive
  segments of 4096 bytes, the last possibly shorter; frame \<open>i\<close> carries segment \<open>i\<close>,
  the continuation flag \<open>m\<close> is 1 on every frame but the last, and the command's
  fields go with the first frame only.
\<close>

definition num_chunks :: "bytes \<Rightarrow> nat" where
  "num_chunks data = (length data + 4095) div 4096"

definition segment :: "bytes \<Rightarrow> nat \<Rightarrow> bytes" where
  "segment data i = take 4096 (drop (4096 * i) data)"

definition chunk_frames :: "cmd \<Rightarrow> bytes \<Rightarrow> out list" where
  "chunk_frames c data =
     map (\<lambda>i. Frame (dict_set (if i = 0 then c else []) ''m''
                        (IntV (if i + 1 < num_chunks data then 1 else 0)))
                 (segment data i))
       [0..<num_chunks data]"

fun frame_payload :: "out \<Rightarrow> bytes" where
  "frame_payload (Frame c payload) = payload"
| "frame_payload (Raw b) = []"

fun frame_cmd :: "out \<Rightarrow> cmd" where
  "frame_cmd (Frame c payload) = c"
| "frame_cmd (Raw b) = []"

section \<open>Floating-point arithmetic\<close>

text \<open>
  Python's \<open>float\<close> is an IEEE 754 double. A finite double is modelled by the rational
  number it denotes; \<open>round_double\<close> rounds a rational to the nearest double, ties to the
  even significand, with 53 bits of precision and the smallest exponent \<open>-1074\<close>
  (gradual underflow). The range is not limited here: an operation checks its result
  against \<open>2 ^ 1024\<close> where Python raises \<open>OverflowError\<close> (the sign of a zero is not
  represented: \<open>floor\<close>, \<open>ceil\<close> and \<open>int\<close> do not see it).
\<close>

definition pow2 :: "int \<Rightarrow> rat" where
  "pow2 k = 2 powi k"

function ilog2 :: "int \<Rightarrow> int" where
  "ilog2 n = (if n < 2 then 0 else 1 + ilog2 (n div 2))"
  by pat_completeness auto
termination
  by (relation "measure nat") auto

declare ilog2.simps [simp del]

definition floor_log2 :: "rat \<Rightarrow> int" where
  "floor_log2 x =
     (let d = ilog2 (fst (quotient_of x)) - ilog2 (snd (quotient_of x))
      in if pow2 d \<le> x then d else d - 1)"

definition round_half_even :: "rat \<Rightarrow> int" where
  "round_half_even y =
     (let f = \<lfloor>y\<rfloor>; d = y - of_int f in
      if d < 1 / 2 then f
      else if 1 / 2 < d then f + 1
      else if even f then f else f + 1)"

definition round_double :: "rat \<Rightarrow> rat" where
  "round_double x =
     (if x = 0 then 0
      else let q = max (floor_log2 \<bar>x\<bar> - 52) (- 1074)
           in sgn x * of_int (round_half_even (\<bar>x\<bar> / pow2 q)) * pow2 q)"

definition finite_double :: "rat \<Rightarrow> error + rat" where
  "finite_double r = (if pow2 1024 \<le> \<bar>r\<bar> then Inl OverflowError else Inr r)"

text \<open>A number with a 53-bit significand and an exponent in range is a double.\<close>

definition representable :: "rat \<Rightarrow> bool" where
  "representable r \<longleftrightarrow> (\<exists>m k. r = of_int m * pow2 k \<and> \<bar>m\<bar> \<le> 2 ^ 53 \<and> - 1074 \<le> k)"

fun bind :: "error + 'a \<Rightarrow> ('a \<Rightarrow> error + 'b) \<Rightarrow> error + 'b" where
  "bind (Inl e) f = Inl e"
| "bind (Inr x) f = f x"

text \<open>\<open>float(n)\<close> for an integer: correctly rounded, \<open>OverflowError\<close> beyond the range.\<close>

definition float_of_int :: "int \<Rightarrow> error + rat" where
  "float_of_int n = finite_double (round_double (of_int n))"

text \<open>\<open>a / b\<close> for two integers: the correctly rounded quotient.\<close>

definition truediv :: "int \<Rightarrow> int \<Rightarrow> error + rat" where
  "truediv a b =
     (if b = 0 then Inl ZeroDivisionError
      else finite_double (round_double (of_int a / of_int b)))"

text \<open>\<open>int(x)\<close> for a float truncates towards zero.\<close>

definition int_of_float :: "rat \<Rightarrow> int" where
  "int_of_float r = (if 0 \<le> r then \<lfloor>r\<rfloor> else \<lceil>r\<rceil>)"

section \<open>Layout engine\<close>

text \<open>
  \<open>corrf = p / float(d)\<close>: both integers are converted to doubles, a zero divisor raises,
  the quotient is rounded. The divisor is an integer, so it is at least 1 in magnitude
  when it is not zero and the quotient stays in range.
\<close>

definition corr_factor :: "int \<Rightarrow> int \<Rightarrow> error + rat" where
  "corr_factor p d =
     bind (float_of_int d) (\<lambda>y.
     bind (float_of_int p) (\<lambda>a.
       if y = 0 then Inl ZeroDivisionError else Inr (round_double (a / y))))"

text \<open>
  \<open>floor(corrf * n)\<close>: the integer is converted to a double, the product is rounded; a
  product beyond the range is an infinity, which \<open>floor\<close> refuses with \<open>OverflowError\<close>.
\<close>

definition floor_scaled :: "rat \<Rightarrow> int \<Rightarrow> error + int" where
  "floor_scaled corrf n =
     bind (float_of_int n) (\<lambda>y.
     bind (finite_double (round_double (corrf * y))) (\<lambda>r. Inr \<lfloor>r\<rfloor>))"

definition fit_height :: "int \<times> int \<Rightarrow> int \<Rightarrow> error + int \<times> int" where
  "fit_height wh pheight =
     (if snd wh > pheight then
        bind (corr_factor pheight (snd wh)) (\<lambda>corrf.
        bind (floor_scaled corrf (fst wh)) (\<lambda>w. Inr (w, pheight)))
      else Inr wh)"

definition fit_width :: "int \<times> int \<Rightarrow> int \<Rightarrow> error + int \<times> int" where
  "fit_width wh pwidth =
     (if fst wh > pwidth then
        bind (corr_factor pwidth (fst wh)) (\<lambda>corrf.
        bind (floor_scaled corrf (snd wh)) (\<lambda>h. Inr (pwidth, h)))
      else Inr wh)"

definition fit_image :: "int \<Rightarrow> int \<Rightarrow> int \<Rightarrow> int \<Rightarrow> error + int \<times> int" where
  "fit_image width height pwidth pheight =
     bind (fit_height (width, height) pheight) (\<lambda>wh1.
     bind (fit_width wh1 pwidth) (\<lambda>wh2.
     fit_height wh2 pheight))"

section \<open>Program state and environment\<close>

text \<open>
  \<open>winsize\<close> is the structure the \<open>TIOCGWINSZ\<close> ioctl fills: four unsigned 16-bit
  integers. \<open>Size\<close> is the named tuple of the Python integers unpacked from it.
\<close>

record winsize =
  ws_row :: "16 word"
  ws_col :: "16 word"
  ws_xpixel :: "16 word"
  ws_ypixel :: "16 word"

record Size =
  sz_rows :: int
  sz_cols :: int
  sz_width :: int
  sz_height :: int

text \<open>
  A callable with its number of positional parameters; calling it with another number
  of arguments raises \<open>TypeError\<close>. The only callable the program creates is the
  lambda given to \<open>signal.signal\<close>, whose body is \<open>screen_size(refresh=True)\<close>.
\<close>

datatype body = ScreenSizeRefresh

datatype callable = Lambda nat body

type_synonym attrs = "int list"

text \<open>
  The state: the attributes \<open>screen_size.ans\<close> and \<open>detect_support.has_files\<close>, the
  installed \<open>SIGWINCH\<close> handler, the writes to standard output and standard error, the
  paths handed to the image decoder or the rasterizer, and the terminal's side: its
  attributes and the status flags of standard input.
\<close>

record state =
  ss_ans :: "Size option"
  has_files :: "bool option"
  sigwinch :: "callable option"
  stdout :: "out list"
  stderr :: "string list"
  opened :: "string list"
  tty_attrs :: attrs
  stdin_flags :: int

datatype step =
    Tcgetattr | GetFl | SetNonblock | PrintNotice | Setraw | Probe
  | Erase | Tcsetattr | RestoreFl

datatype sel = NoInput | Input bytes | ReadFails

record image =
  im_mode :: string
  im_size :: "int \<times> int"
  im_bytes :: bytes

datatype rsvg = RsvgMissing | RsvgFailed | RsvgOutput bytes

text \<open>
  The environment: what the operating system, the terminal and the libraries answer.
  \<open>raises\<close> says which terminal call of \<open>detect_support\<close> raises; \<open>polls\<close> is, for each
  test of the polling loop's condition, the value of \<open>monotonic() - start_time\<close> read
  there and what \<open>select\<close> and \<open>read\<close> give if the body runs.
\<close>

record env =
  isatty_stdout :: bool
  isatty_stdin :: bool
  tiocgwinsz :: "error + winsize"
  raw_mode :: "attrs \<Rightarrow> attrs"
  O_NONBLOCK :: int
  raises :: "step \<Rightarrow> bool"
  tmp_name :: bytes
  polls :: "(rat \<times> sel) list"
  parse_args :: "string list \<Rightarrow> error + string list"
  isdir :: "string \<Rightarrow> bool"
  walk :: "string \<Rightarrow> (string \<times> string list \<times> string list) list"
  guess_type :: "string \<Rightarrow> string option"
  pillow_installed :: bool
  image_open :: "string \<Rightarrow> string + image"
  convert_rgba :: "image \<Rightarrow> bytes"
  rsvg_convert :: "string \<Rightarrow> rsvg"
  compress :: "bytes \<Rightarrow> bytes"

text \<open>A computation that may raise and changes the state; the state survives a raise.\<close>

definition bindS ::
  "(state \<Rightarrow> (error + 'a) \<times> state) \<Rightarrow> ('a \<Rightarrow> state \<Rightarrow> (error + 'b) \<times> state)
     \<Rightarrow> state \<Rightarrow> (error + 'b) \<times> state" where
  "bindS m f st = (case m st of (Inl e, st') \<Rightarrow> (Inl e, st') | (Inr x, st') \<Rightarrow> f x st')"

definition lift :: "error + 'a \<Rightarrow> state \<Rightarrow> (error + 'a) \<times> state" where
  "lift r st = (r, st)"

definition write_raw :: "bytes \<Rightarrow> state \<Rightarrow> (error + unit) \<times> state" where
  "write_raw b st = (Inr (), st\<lparr>stdout := stdout st @ [Raw b]\<rparr>)"

section \<open>Geometry probe\<close>

definition unpack_HHHH :: "winsize \<Rightarrow> Size" where
  "unpack_HHHH x =
     \<lparr>sz_rows = uint (ws_row x), sz_cols = uint (ws_col x),
      sz_width = uint (ws_xpixel x), sz_height = uint (ws_ypixel x)\<rparr>"

definition query_winsize :: "env \<Rightarrow> state \<Rightarrow> (error + Size) \<times> state" where
  "query_winsize e st =
     (case tiocgwinsz e of
        Inl err \<Rightarrow> (Inl err, st)
      | Inr x \<Rightarrow> (Inr (unpack_HHHH x), st\<lparr>ss_ans := Some (unpack_HHHH x)\<rparr>))"

definition screen_size :: "bool \<Rightarrow> env \<Rightarrow> state \<Rightarrow> (error + Size) \<times> state" where
  "screen_size refresh e st =
     (case ss_ans st of
        None \<Rightarrow> query_winsize e st
      | Some ans \<Rightarrow> if refresh then query_winsize e st else (Inr ans, st))"

text \<open>Calling a callable with a list of positional arguments.\<close>

fun call :: "callable \<Rightarrow> val list \<Rightarrow> env \<Rightarrow> state \<Rightarrow> (error + unit) \<times> state" where
  "call (Lambda n ScreenSizeRefresh) args e st =
     (if length args \<noteq> n then (Inl TypeError, st)
      else bindS (screen_size True e) (\<lambda>_. lift (Inr ())) st)"

text \<open>
  Delivery of \<open>SIGWINCH\<close>: the interpreter calls the installed handler with the signal
  number and the current stack frame (here a placeholder value).
\<close>

definition SIGWINCH :: int where
  "SIGWINCH = 28"

definition deliver_sigwinch :: "env \<Rightarrow> state \<Rightarrow> (error + unit) \<times> state" where
  "deliver_sigwinch e st =
     (case sigwinch st of
        None \<Rightarrow> (Inr (), st)
      | Some h \<Rightarrow> call h [IntV SIGWINCH, StrV ''frame''] e st)"

section \<open>Placement\<close>

definition ceil_div :: "int \<Rightarrow> int \<Rightarrow> error + int" where
  "ceil_div a b = bind (truediv a b) (\<lambda>r. Inr \<lceil>r\<rceil>)"

definition trunc_div :: "int \<Rightarrow> int \<Rightarrow> error + int" where
  "trunc_div a b = bind (truediv a b) (\<lambda>r. Inr (int_of_float r))"

definition set_cursor ::
  "cmd \<Rightarrow> int \<Rightarrow> int \<Rightarrow> env \<Rightarrow> state \<Rightarrow> (error + cmd) \<times> state" where
  "set_cursor c width height e =
     bindS (screen_size False e) (\<lambda>ss.
     bindS (lift (trunc_div (sz_width ss) (sz_cols ss))) (\<lambda>cw.
     bindS (lift (ceil_div width cw)) (\<lambda>num_of_cells_needed.
       if num_of_cells_needed > sz_cols ss then
         bindS (lift (fit_image width height (sz_width ss) height)) (\<lambda>wh.
         bindS (lift (trunc_div (sz_height ss) (sz_rows ss))) (\<lambda>ch.
         bindS (lift (ceil_div height ch)) (\<lambda>num_of_rows_needed.
           lift (Inr (dict_set
                        (dict_set (dict_set c ''c'' (IntV (sz_cols ss)))
                           ''r'' (IntV num_of_rows_needed))
                        ''Y'' (IntV (height mod ch)))))))
       else
         bindS (lift (Inr (dict_set c ''X'' (IntV (width mod cw))))) (\<lambda>c'.
         bindS (if (sz_cols ss - num_of_cells_needed) div 2 \<noteq> 0
                then write_raw
                       (replicate (nat ((sz_cols ss - num_of_cells_needed) div 2)) CHR '' '')
                else lift (Inr ()))
           (\<lambda>_. lift (Inr c'))))))"

section \<open>Showing an image\<close>

definition add_format_code :: "cmd \<Rightarrow> string \<Rightarrow> int \<Rightarrow> int \<Rightarrow> error + cmd" where
  "add_format_code c mode width height =
     (if mode = ''RGB'' then
        Inr (dict_set (dict_set (dict_set c ''f'' (StrV ''24'')) ''s'' (IntV width)) ''v'' (IntV height))
      else if mode = ''RGBA'' then
        Inr (dict_set (dict_set (dict_set c ''f'' (StrV ''32'')) ''s'' (IntV width)) ''v'' (IntV height))
      else if mode = ''PNG'' then
        Inr (dict_set c ''f'' (StrV ''100''))
      else Inl KeyError)"

definition show_image ::
  "bytes \<Rightarrow> string \<Rightarrow> int \<Rightarrow> int \<Rightarrow> env \<Rightarrow> state \<Rightarrow> (error + unit) \<times> state" where
  "show_image data mode width height e =
     bindS (lift (add_format_code
              (if mode = ''PNG'' then dict_set [(''a'', StrV ''T'')] ''S'' (IntV (int (length data)))
               else [(''a'', StrV ''T'')])
              mode width height)) (\<lambda>c.
     bindS (set_cursor c width height e) (\<lambda>c' st.
       (Inr (), st\<lparr>stdout := snd (write_chunked (compress e) mode c' data (stdout st))\<rparr>)))"

definition convert_svg :: "string \<Rightarrow> env \<Rightarrow> state \<Rightarrow> (error + bytes) \<times> state" where
  "convert_svg path e st =
     (case rsvg_convert e path of
        RsvgMissing \<Rightarrow>
          (Inl (SystemExit (StrV
             ''Could not find the program rsvg-convert, needed to display svg files'')), st)
      | RsvgFailed \<Rightarrow>
          (Inl (OpenFailed path ''rsvg-convert could not process the image''),
           st\<lparr>opened := opened st @ [path]\<rparr>)
      | RsvgOutput data \<Rightarrow> (Inr data, st\<lparr>opened := opened st @ [path]\<rparr>))"

definition image_open_at :: "string \<Rightarrow> env \<Rightarrow> state \<Rightarrow> (error + image) \<times> state" where
  "image_open_at path e st =
     (case image_open e path of
        Inl msg \<Rightarrow> (Inl (OpenFailed path msg), st\<lparr>opened := opened st @ [path]\<rparr>)
      | Inr im \<Rightarrow> (Inr im, st\<lparr>opened := opened st @ [path]\<rparr>))"

definition process :: "string \<Rightarrow> string \<Rightarrow> env \<Rightarrow> state \<Rightarrow> (error + unit) \<times> state" where
  "process path mt e =
     bindS
       (if mt = ''image/svg+xml'' then
          bindS (convert_svg path e) (\<lambda>data. show_image data ''PNG'' 0 0 e)
        else if \<not> pillow_installed e then
          lift (Inl (SystemExit (StrV
            ''You need to install the python-pillow package for image support'')))
        else
          bindS (image_open_at path e) (\<lambda>im.
            if im_mode im \<noteq> ''RGB'' \<and> im_mode im \<noteq> ''RGBA''
            then show_image (convert_rgba e im) ''RGBA'' (fst (im_size im)) (snd (im_size im)) e
            else show_image (im_bytes im) (im_mode im) (fst (im_size im)) (snd (im_size im)) e))
       (\<lambda>_. write_raw [CHR 0x0A])"

section \<open>Scanning a directory\<close>

definition path_join :: "string \<Rightarrow> string \<Rightarrow> string" where
  "path_join a b =
     (if take 1 b = ''/'' then b
      else if a = [] \<or> last a = CHR ''/'' then a @ b
      else a @ ''/'' @ b)"

definition scan :: "string \<Rightarrow> env \<Rightarrow> (string \<times> string) list" where
  "scan d e =
     concat (map (\<lambda>(dirpath, dirnames, filenames).
       concat (map (\<lambda>f.
         (case guess_type e f of
            None \<Rightarrow> []
          | Some mt \<Rightarrow> if take 6 mt = ''image/'' then [(path_join dirpath f, mt)] else []))
         filenames))
       (walk e d))"

section \<open>Capability negotiation\<close>

text \<open>
  The response pattern \<open>ESC _ G i = ([1|2]) ; (.+?) ESC \\<close>: a character class that
  admits \<open>1\<close>, \<open>|\<close> and \<open>2\<close>, then the shortest non-empty run of bytes other than
  newline that is followed by \<open>ESC \\<close>. \<open>match_body\<close> returns that run and what follows
  the terminator.
\<close>

fun match_body :: "bytes \<Rightarrow> bytes \<Rightarrow> (bytes \<times> bytes) option" where
  "match_body body [] = None"
| "match_body body (c # cs) =
     (if body \<noteq> [] \<and> c = ESC \<and> take 1 cs = [BSL] then Some (body, drop 1 cs)
      else if c = CHR 0x0A then None
      else match_body (body @ [c]) cs)"

fun match_at :: "bytes \<Rightarrow> (char \<times> bytes \<times> bytes) option" where
  "match_at (c1 # c2 # c3 # c4 # c5 # iid # c7 # rest) =
     (if [c1, c2, c3, c4, c5] = [ESC, CHR ''_'', CHR ''G'', CHR ''i'', CHR ''='']
         \<and> iid \<in> set ''1|2'' \<and> c7 = CHR '';''
      then (case match_body [] rest of
              None \<Rightarrow> None
            | Some (status, rest') \<Rightarrow> Some (iid, status, rest'))
      else None)"
| "match_at _ = None"

text \<open>\<open>re.finditer\<close>: the matches from left to right, each search starting where the
  previous match ended.\<close>

function finditer :: "bytes \<Rightarrow> (char \<times> bytes) list" where
  "finditer s =
     (if s = [] then []
      else (case match_at s of
              None \<Rightarrow> finditer (tl s)
            | Some (iid, status, rest) \<Rightarrow> (iid, status) # finditer rest))"
  by pat_completeness auto
termination
proof (relation "measure length", goal_cases)
  case 1
  show ?case by simp
next
  case (2 s)
  then show ?case by (cases s) simp_all
next
  case (3 s m iid p status rest)
  have body: "length r < length t" if "match_body b t = Some (x, r)" for b t x r
    using that
    by (induction b t rule: match_body.induct) (auto split: if_splits)
  have "length rest < length s"
  proof (cases s rule: match_at.cases)
    case (1 c1 c2 c3 c4 c5 i c7 r)
    with 3 have "match_body [] r = Some (status, rest)"
      by (auto split: if_splits option.splits)
    from body [OF this] 1 show ?thesis by simp
  qed (use 3 in auto)
  then show ?case by simp
qed

declare finditer.simps [simp del]

type_synonym responses = "int \<rightharpoonup> bool"

fun parse_matches :: "(char \<times> bytes) list \<Rightarrow> responses \<Rightarrow> responses" where
  "parse_matches [] responses = responses"
| "parse_matches ((iid, status) # ms) responses =
     parse_matches ms
       (if iid = CHR ''1'' \<or> iid = CHR ''2'' then
          (if responses (if iid = CHR ''1'' then 1 else 2) = None
           then responses((if iid = CHR ''1'' then 1 else 2) \<mapsto> (status = ''OK''))
           else responses)
        else responses)"

definition parse_responses :: "bytes \<Rightarrow> responses \<Rightarrow> responses" where
  "parse_responses received responses = parse_matches (finditer received) responses"

text \<open>\<open>read\<close>: nothing read means end of input; otherwise the bytes are appended to
  \<open>received\<close> and the whole of it is parsed again.\<close>

definition read :: "bytes \<Rightarrow> bytes \<times> responses \<Rightarrow> bytes \<times> responses" where
  "read d rr =
     (if d = [] then (fst rr, (snd rr)(1 \<mapsto> False, 2 \<mapsto> False))
      else (fst rr @ d, parse_responses (fst rr @ d) (snd rr)))"

text \<open>
  The polling loop. Each element of the list is one test of the condition: the elapsed
  time read there, and what the body finds if it runs. \<open>None\<close>: the loop is still running
  when the list ends.
\<close>

fun poll_loop ::
  "int \<Rightarrow> (rat \<times> sel) list \<Rightarrow> bytes \<times> responses \<Rightarrow> (error + responses) option" where
  "poll_loop wait_for [] rr = None"
| "poll_loop wait_for ((elapsed, s) # ps) rr =
     (if elapsed < of_int wait_for \<and> snd rr 1 = None \<and> snd rr 2 = None then
        (case s of
           NoInput \<Rightarrow> poll_loop wait_for ps rr
         | Input d \<Rightarrow> poll_loop wait_for ps (read d rr)
         | ReadFails \<Rightarrow> Some (Inl OSError))
      else Some (Inr (snd rr)))"

text \<open>The body of the \<open>try\<close>: the two probes, then the polling loop.\<close>

definition probes :: "env \<Rightarrow> out list" where
  "probes e =
     [Frame [(''a'', StrV ''q''), (''s'', IntV 1), (''v'', IntV 1), (''i'', IntV 1)]
        (standard_b64encode ''abcd''),
      Frame [(''a'', StrV ''q''), (''s'', IntV 1), (''v'', IntV 1), (''i'', IntV 2),
             (''t'', StrV ''f'')]
        (standard_b64encode (tmp_name e))]"

definition negotiate ::
  "int \<Rightarrow> env \<Rightarrow> state \<Rightarrow> ((error + responses) \<times> state) option" where
  "negotiate wait_for e st =
     (if raises e Probe then Some (Inl OSError, st)
      else (case poll_loop wait_for (polls e) ([], Map.empty) of
              None \<Rightarrow> None
            | Some r \<Rightarrow> Some (r, st\<lparr>stdout := stdout st @ probes e\<rparr>)))"

text \<open>The \<open>finally\<close> clause: erase, restore the attributes, restore the flags; a call that
  raises ends it.\<close>

definition cleanup :: "attrs \<Rightarrow> int \<Rightarrow> env \<Rightarrow> state \<Rightarrow> (error + unit) \<times> state" where
  "cleanup old oldfl e st =
     (if raises e Erase then (Inl OSError, st)
      else if raises e Tcsetattr
      then (Inl OSError, st\<lparr>stdout := stdout st @ [Raw [ESC, CHR ''['', CHR ''J'']]\<rparr>)
      else if raises e RestoreFl
      then (Inl OSError,
            st\<lparr>stdout := stdout st @ [Raw [ESC, CHR ''['', CHR ''J'']], tty_attrs := old\<rparr>)
      else (Inr (),
            st\<lparr>stdout := stdout st @ [Raw [ESC, CHR ''['', CHR ''J'']], tty_attrs := old,
               stdin_flags := oldfl\<rparr>))"

definition notice :: "int \<Rightarrow> bytes" where
  "notice wait_for =
     ''Checking for graphics ('' @ str_int wait_for @ ''s max. wait)...'' @ [CHR 0x0D]"

definition detect_support ::
  "int \<Rightarrow> env \<Rightarrow> state \<Rightarrow> ((error + bool) \<times> state) option" where
  "detect_support wait_for e st =
     (if raises e Tcgetattr \<or> raises e GetFl \<or> raises e SetNonblock then Some (Inl OSError, st)
      else if raises e PrintNotice
      then Some (Inl OSError, st\<lparr>stdin_flags := stdin_flags st OR O_NONBLOCK e\<rparr>)
      else if raises e Setraw
      then Some (Inl OSError,
                 st\<lparr>stdin_flags := stdin_flags st OR O_NONBLOCK e,
                    stdout := stdout st @ [Raw (notice wait_for)]\<rparr>)
      else
        (case negotiate wait_for e
                (st\<lparr>stdin_flags := stdin_flags st OR O_NONBLOCK e,
                    stdout := stdout st @ [Raw (notice wait_for)],
                    tty_attrs := raw_mode e (tty_attrs st)\<rparr>) of
           None \<Rightarrow> None
         | Some (r, st') \<Rightarrow>
             (case cleanup (tty_attrs st) (stdin_flags st) e st' of
                (Inl err, st'') \<Rightarrow> Some (Inl err, st'')
              | (Inr _, st'') \<Rightarrow>
                  (case r of
                     Inl err \<Rightarrow> Some (Inl err, st'')
                   | Inr responses \<Rightarrow>
                       Some (Inr (case responses 1 of None \<Rightarrow> False | Some b \<Rightarrow> b),
                             st''\<lparr>has_files :=
                                    Some (case responses 2 of None \<Rightarrow> False | Some b \<Rightarrow> b)\<rparr>)))))"

section \<open>Driver\<close>

text \<open>The inner loop over a scanned directory: \<open>for x, mt in scan(item): process(item, mt)\<close>.\<close>

fun process_scanned ::
  "string \<Rightarrow> (string \<times> string) list \<Rightarrow> env \<Rightarrow> state \<Rightarrow> (error + unit) \<times> state" where
  "process_scanned item [] e st = (Inr (), st)"
| "process_scanned item ((x, mt) # rest) e st =
     bindS (process item mt e) (\<lambda>_. process_scanned item rest e) st"

definition process_item :: "string \<Rightarrow> env \<Rightarrow> state \<Rightarrow> (error + unit) \<times> state" where
  "process_item item e st =
     (if isdir e item then process_scanned item (scan item e) e st
      else process item
             (case guess_type e item of
                None \<Rightarrow> ''application/octet-stream''
              | Some mt \<Rightarrow> if mt = [] then ''application/octet-stream'' else mt)
             e st)"

text \<open>The loop over the items: \<open>OpenFailed\<close> is caught and collected, anything else
  propagates.\<close>

fun process_items ::
  "string list \<Rightarrow> error list \<Rightarrow> env \<Rightarrow> state \<Rightarrow> (error + error list) \<times> state" where
  "process_items [] errors e st = (Inr errors, st)"
| "process_items (item # items) errors e st =
     (case process_item item e st of
        (Inr _, st') \<Rightarrow> process_items items errors e st'
      | (Inl (OpenFailed path msg), st') \<Rightarrow>
          process_items items (errors @ [OpenFailed path msg]) e st'
      | (Inl err, st') \<Rightarrow> (Inl err, st'))"

fun str_error :: "error \<Rightarrow> string" where
  "str_error (OpenFailed path msg) = ''Failed to open: '' @ path @ '' with error: '' @ msg"
| "str_error _ = []"

definition sigwinch_handler :: callable where
  "sigwinch_handler = Lambda 0 ScreenSizeRefresh"

definition size_unsupported :: error where
  "size_unsupported =
     SystemExit (StrV
       ''Terminal does not support reporting screen sizes via the TIOCGWINSZ ioctl'')"

definition main :: "string list \<Rightarrow> env \<Rightarrow> state \<Rightarrow> ((error + unit) \<times> state) option" where
  "main args e st0 =
     (let st = st0\<lparr>sigwinch := Some sigwinch_handler\<rparr> in
      if \<not> isatty_stdout e \<or> \<not> isatty_stdin e then
        Some (Inl (SystemExit (StrV
          ''Must be run in a terminal, stdout is currently not a terminal'')), st)
      else
        (case screen_size False e st of
           (Inl err, st1) \<Rightarrow> Some (Inl err, st1)
         | (Inr ss, st1) \<Rightarrow>
             if sz_width ss = 0 then Some (Inl size_unsupported, st1)
             else
               (case parse_args e (tl args) of
                  Inl err \<Rightarrow> Some (Inl err, st1)
                | Inr items \<Rightarrow>
                    if items = [] then
                      Some (Inl (SystemExit (StrV ''You must specify at least one file to cat'')),
                            st1)
                    else
                      (case detect_support 10 e st1 of
                         None \<Rightarrow> None
                       | Some (Inl err, st2) \<Rightarrow> Some (Inl err, st2)
                       | Some (Inr supported, st2) \<Rightarrow>
                           if \<not> supported then
                             Some (Inl (SystemExit (StrV
                               ''This terminal emulator does not support the graphics protocol, use a terminal emulator such as kitty that does support it'')),
                               st2)
                           else
                             (case process_items items [] e st2 of
                                (Inl err, st3) \<Rightarrow> Some (Inl err, st3)
                              | (Inr errors, st3) \<Rightarrow>
                                  if errors = [] then Some (Inr (), st3)
                                  else Some (Inl (SystemExit (IntV 1)),
                                             st3\<lparr>stderr := stderr st3 @ map str_error errors\<rparr>))))))"

section \<open>Example inputs\<close>

text \<open>
  A terminal of 50 rows and 100 columns, 1000 by 800 pixels; a directory \<open>pics\<close> that
  holds one image \<open>a.png\<close>; a stand-in for zlib that prefixes one byte, with \<open>tl\<close> as its
  inverse.
\<close>

definition st0 :: state where
  "st0 = \<lparr>ss_ans = None, has_files = None, sigwinch = None, stdout = [], stderr = [],
          opened = [], tty_attrs = [1280, 5, 191, 35387], stdin_flags = 2\<rparr>"

definition png_image :: image where
  "png_image = \<lparr>im_mode = ''RGB'', im_size = (1, 1), im_bytes = [CHR 0xFF, CHR 0x00, CHR 0x00]\<rparr>"

definition toy_compress :: "bytes \<Rightarrow> bytes" where
  "toy_compress d = CHR 0x78 # d"

definition env0 :: env where
  "env0 =
     \<lparr>isatty_stdout = True, isatty_stdin = True,
      tiocgwinsz = Inr \<lparr>ws_row = 50, ws_col = 100, ws_xpixel = 1000, ws_ypixel = 800\<rparr>,
      raw_mode = map (\<lambda>_. 0),
      O_NONBLOCK = 2048,
      raises = (\<lambda>_. False),
      tmp_name = ''/tmp/tmpq1w2e3'',
      polls = [],
      parse_args = Inr,
      isdir = (\<lambda>p. p = ''pics''),
      walk = (\<lambda>d. if d = ''pics'' then [(''pics'', [], [''a.png''])] else []),
      guess_type = (\<lambda>f. if drop (length f - 4) f = ''.png'' then Some ''image/png'' else None),
      pillow_installed = True,
      image_open = (\<lambda>p. if p = ''pics/a.png'' then Inr png_image
                         else Inl ''cannot identify image file''),
      convert_rgba = im_bytes,
      rsvg_convert = (\<lambda>_. RsvgMissing),
      compress = toy_compress\<rparr>"

text \<open>The two response frames a terminal sends when it supports both probes.\<close>

definition reply1 :: bytes where
  "reply1 = [ESC] @ ''_Gi=1;OK'' @ [ESC, BSL]"

definition reply2 :: bytes where
  "reply2 = [ESC] @ ''_Gi=2;OK'' @ [ESC, BSL]"

text \<open>
  Environments for single runs: a terminal that reports a pixel width but no pixel
  height and answers both probes in one read, with a second image \<open>wide.png\<close> of 2000
  by 1000 pixels (its pixel bytes are left out: placement raises before they are
  used); a terminal whose answer to probe 1 comes
  in one read and its answer to probe 2 in the next; a run in which \<open>tty.setraw\<close> raises;
  a run in which nothing is received before the timeout and the erase write of the
  \<open>finally\<close> clause raises.
\<close>

definition wide_image :: image where
  "wide_image = \<lparr>im_mode = ''RGB'', im_size = (2000, 1000), im_bytes = []\<rparr>"

definition env_h0 :: env where
  "env_h0 = env0\<lparr>tiocgwinsz := Inr \<lparr>ws_row = 24, ws_col = 80, ws_xpixel = 640, ws_ypixel = 0\<rparr>,
                  polls := [(0, Input (reply1 @ reply2)), (1 / 10, NoInput)],
                  image_open := (\<lambda>p. if p = ''pics/a.png'' then Inr png_image
                                     else if p = ''wide.png'' then Inr wide_image
                                     else Inl ''cannot identify image file'')\<rparr>"

definition env_one_reply :: env where
  "env_one_reply = env0\<lparr>polls := [(0, Input reply1), (1 / 10, Input reply2)]\<rparr>"

definition env_setraw_fails :: env where
  "env_setraw_fails = env0\<lparr>raises := (\<lambda>s. s = Setraw)\<rparr>"

definition env_erase_fails :: env where
  "env_erase_fails = env0\<lparr>raises := (\<lambda>s. s = Erase), polls := [(0, NoInput), (10, NoInput)]\<rparr>"

section \<open>Properties of the floating-point model\<close>

lemma pow2_pos [simp]: "0 < pow2 k"
  by (simp add: pow2_def)

lemma pow2_nonneg [simp]: "0 \<le> pow2 k"
  by (simp add: less_imp_le)

lemma pow2_not_le_0 [simp]: "\<not> pow2 k \<le> 0"
  by (simp add: not_le)

lemma pow2_neq_0 [simp]: "pow2 k \<noteq> 0"
  by (simp add: pow2_def)

lemma pow2_0 [simp]: "pow2 0 = 1"
  by (simp add: pow2_def)

lemma pow2_1 [simp]: "pow2 1 = 2"
  by (simp add: pow2_def)

lemma pow2_add: "pow2 (a + b) = pow2 a * pow2 b"
  by (simp add: pow2_def power_int_add)

lemma pow2_diff: "pow2 (a - b) = pow2 a / pow2 b"
  by (simp add: pow2_def power_int_diff)

lemma pow2_nat: "0 \<le> k \<Longrightarrow> pow2 k = 2 ^ nat k"
  by (simp add: pow2_def power_int_def)

lemma pow2_mono: "a \<le> b \<Longrightarrow> pow2 a \<le> pow2 b"
  by (simp add: pow2_def power_int_increasing)

lemma pow2_strict_mono: "a < b \<Longrightarrow> pow2 a < pow2 b"
  by (simp add: pow2_def power_int_strict_increasing)

lemma pow2_less_cancel: "pow2 a < pow2 b \<Longrightarrow> a < b"
  using pow2_mono [of b a] by (cases "a < b") auto

lemma ilog2_nonneg: "0 \<le> ilog2 n"
  by (induction n rule: ilog2.induct) (subst ilog2.simps, simp)

lemma ilog2_bounds: "1 \<le> n \<Longrightarrow> 2 ^ nat (ilog2 n) \<le> n \<and> n < 2 * 2 ^ nat (ilog2 n)"
proof (induction n rule: ilog2.induct)
  case (1 n)
  show ?case
  proof (cases "n < 2")
    case True
    with 1 have "n = 1" by simp
    then show ?thesis by (subst (1 2) ilog2.simps) simp
  next
    case False
    then have ih: "2 ^ nat (ilog2 (n div 2)) \<le> n div 2 \<and> n div 2 < 2 * 2 ^ nat (ilog2 (n div 2))"
      using 1 by simp
    have eq: "ilog2 n = 1 + ilog2 (n div 2)"
      using False by (subst ilog2.simps) simp
    have "nat (1 + ilog2 (n div 2)) = Suc (nat (ilog2 (n div 2)))"
      using ilog2_nonneg [of "n div 2"] by simp
    then show ?thesis
      using ih unfolding eq by simp linarith
  qed
qed

lemma floor_log2_bounds:
  assumes "0 < x"
  shows "pow2 (floor_log2 x) \<le> x \<and> x < pow2 (floor_log2 x + 1)"
proof -
  obtain a b where ab: "quotient_of x = (a, b)" by (cases "quotient_of x")
  then have b: "0 < b" and x: "x = of_int a / of_int b"
    using quotient_of_denom_pos [OF ab] quotient_of_div [OF ab] by simp_all
  with assms have a: "0 < a"
    by (simp add: zero_less_divide_iff)
  define la lb where "la = ilog2 a" and "lb = ilog2 b"
  have la: "2 ^ nat la \<le> a" "a < 2 * 2 ^ nat la" and lb: "2 ^ nat lb \<le> b" "b < 2 * 2 ^ nat lb"
    using ilog2_bounds [of a] ilog2_bounds [of b] a b by (simp_all add: la_def lb_def)
  have nn: "0 \<le> la" "0 \<le> lb"
    by (simp_all add: la_def lb_def ilog2_nonneg)
  have pa: "pow2 la \<le> of_int a" "of_int a < 2 * pow2 la"
  proof -
    have "(of_int (2 ^ nat la) :: rat) \<le> of_int a" "(of_int a :: rat) < of_int (2 * 2 ^ nat la)"
      using la by (simp_all only: of_int_le_iff of_int_less_iff)
    then show "pow2 la \<le> of_int a" "of_int a < 2 * pow2 la"
      using nn by (simp_all add: pow2_nat)
  qed
  have pb: "pow2 lb \<le> of_int b" "of_int b < 2 * pow2 lb"
  proof -
    have "(of_int (2 ^ nat lb) :: rat) \<le> of_int b" "(of_int b :: rat) < of_int (2 * 2 ^ nat lb)"
      using lb by (simp_all only: of_int_le_iff of_int_less_iff)
    then show "pow2 lb \<le> of_int b" "of_int b < 2 * pow2 lb"
      using nn by (simp_all add: pow2_nat)
  qed
  have bpos: "(0::rat) < of_int b" using b by simp
  have up: "x < pow2 (la - lb + 1)"
  proof -
    have "of_int a * pow2 lb < (2 * pow2 la) * pow2 lb"
      using pa(2) by (simp add: mult_less_cancel_right)
    also have "\<dots> \<le> (2 * pow2 la) * of_int b"
      using pb(1) by (intro mult_left_mono) (simp_all add: less_imp_le)
    finally have "of_int a * pow2 lb < 2 * pow2 la * of_int b" .
    then have "x < 2 * pow2 la / pow2 lb"
      unfolding x using bpos by (simp add: field_simps)
    then show ?thesis
      by (simp add: pow2_add pow2_diff mult.commute)
  qed
  have low: "pow2 (la - lb - 1) < x"
  proof -
    have "pow2 la * of_int b < pow2 la * (2 * pow2 lb)"
      using pb(2) by (simp add: mult_less_cancel_left)
    also have "\<dots> \<le> of_int a * (2 * pow2 lb)"
      using pa(1) by (intro mult_right_mono) (simp_all add: less_imp_le)
    finally have "pow2 la * of_int b < of_int a * (2 * pow2 lb)" .
    then have "pow2 la / (2 * pow2 lb) < x"
      unfolding x using bpos by (simp add: field_simps)
    then show ?thesis
      by (simp add: pow2_diff mult.commute)
  qed
  have fl: "floor_log2 x = (if pow2 (la - lb) \<le> x then la - lb else la - lb - 1)"
    by (simp add: floor_log2_def ab la_def lb_def Let_def)
  show ?thesis
  proof (cases "pow2 (la - lb) \<le> x")
    case True
    then show ?thesis using up by (simp add: fl)
  next
    case False
    then show ?thesis using low by (simp add: fl)
  qed
qed

lemma floor_log2_unique:
  assumes "pow2 e \<le> x" "x < pow2 (e + 1)"
  shows "floor_log2 x = e"
proof -
  have "0 < x" using assms(1) pow2_pos [of e] by linarith
  from floor_log2_bounds [OF this]
  have "pow2 (floor_log2 x) < pow2 (e + 1)" "pow2 e < pow2 (floor_log2 x + 1)"
    using assms by linarith+
  then have "floor_log2 x < e + 1" "e < floor_log2 x + 1"
    by (auto dest: pow2_less_cancel)
  then show ?thesis by simp
qed


lemma rhe_of_int [simp]: "round_half_even (of_int k) = k"
  by (simp add: round_half_even_def)

lemma rhe_le: "y \<le> of_int k \<Longrightarrow> round_half_even y \<le> k"
proof -
  assume a: "y \<le> of_int k"
  have f: "of_int \<lfloor>y\<rfloor> \<le> y" "y < of_int \<lfloor>y\<rfloor> + 1" by linarith+
  have fk: "\<lfloor>y\<rfloor> \<le> k" using a by (simp add: floor_le_iff)
  have "\<lfloor>y\<rfloor> + 1 \<le> k" if "y \<noteq> of_int \<lfloor>y\<rfloor>"
  proof -
    have "of_int \<lfloor>y\<rfloor> < (of_int k :: rat)" using that f a by linarith
    then show ?thesis by simp
  qed
  then show ?thesis
    using fk unfolding round_half_even_def Let_def by auto
qed

lemma rhe_ge: "of_int k \<le> y \<Longrightarrow> k \<le> round_half_even y"
proof -
  assume a: "of_int k \<le> y"
  have fk: "k \<le> \<lfloor>y\<rfloor>" using a by (simp add: le_floor_iff)
  then show ?thesis
    unfolding round_half_even_def Let_def by auto
qed

lemma rhe_error: "\<bar>of_int (round_half_even y) - y\<bar> \<le> 1 / 2"
proof -
  have f: "of_int \<lfloor>y\<rfloor> \<le> y" "y < of_int \<lfloor>y\<rfloor> + 1" by linarith+
  consider "y - of_int \<lfloor>y\<rfloor> < 1 / 2" | "1 / 2 < y - of_int \<lfloor>y\<rfloor>" | "y - of_int \<lfloor>y\<rfloor> = 1 / 2"
    by linarith
  then show ?thesis
  proof cases
    case 1
    then have "round_half_even y = \<lfloor>y\<rfloor>" by (simp add: round_half_even_def)
    with 1 f show ?thesis by simp
  next
    case 2
    then have "round_half_even y = \<lfloor>y\<rfloor> + 1" by (simp add: round_half_even_def)
    with 2 f show ?thesis by simp
  next
    case 3
    then have "round_half_even y = \<lfloor>y\<rfloor> \<or> round_half_even y = \<lfloor>y\<rfloor> + 1"
      by (simp add: round_half_even_def Let_def)
    with 3 f show ?thesis by auto
  qed
qed


lemma round_double_eval:
  assumes "pow2 e \<le> \<bar>x\<bar>" "\<bar>x\<bar> < pow2 (e + 1)"
  shows "round_double x =
           sgn x * of_int (round_half_even (\<bar>x\<bar> / pow2 (max (e - 52) (- 1074))))
             * pow2 (max (e - 52) (- 1074))"
proof -
  have "x \<noteq> 0" using assms(1) pow2_pos [of e] by auto
  moreover have "floor_log2 \<bar>x\<bar> = e" using assms by (rule floor_log2_unique)
  ultimately show ?thesis by (simp add: round_double_def Let_def)
qed

lemma round_double_0 [simp]: "round_double 0 = 0"
  by (simp add: round_double_def)

lemma round_double_minus: "round_double (- x) = - round_double x"
  by (simp add: round_double_def Let_def)

lemma round_double_nonneg: "0 \<le> x \<Longrightarrow> 0 \<le> round_double x"
  using rhe_ge [of 0 "\<bar>x\<bar> / pow2 (max (floor_log2 \<bar>x\<bar> - 52) (- 1074))"]
  by (simp add: round_double_def Let_def)

lemma pos_quantum:
  assumes "0 < x" "x \<le> of_int m * pow2 k" "m \<le> 2 ^ 53"
  shows "floor_log2 x \<le> 53 + k" "floor_log2 x = 53 + k \<Longrightarrow> x = pow2 (53 + k)"
proof -
  have mpos: "0 < m"
  proof (rule ccontr)
    assume "\<not> 0 < m"
    then have "of_int m * pow2 k \<le> 0" by (simp add: mult_le_0_iff)
    with assms show False by linarith
  qed
  have "(of_int m :: rat) \<le> of_int (2 ^ 53)"
    using assms(3) by (simp only: of_int_le_iff)
  then have "of_int m * pow2 k \<le> 2 ^ 53 * pow2 k"
    by (intro mult_right_mono) simp_all
  also have "\<dots> = pow2 (53 + k)" by (simp add: pow2_add pow2_nat)
  finally have ub: "x \<le> pow2 (53 + k)" using assms(2) by linarith
  from floor_log2_bounds [OF assms(1)] have lb: "pow2 (floor_log2 x) \<le> x" by simp
  show le: "floor_log2 x \<le> 53 + k"
  proof (rule ccontr)
    assume "\<not> floor_log2 x \<le> 53 + k"
    then have "pow2 (53 + k) < pow2 (floor_log2 x)" by (simp add: pow2_strict_mono)
    with ub lb show False by linarith
  qed
  show "x = pow2 (53 + k)" if "floor_log2 x = 53 + k"
    using that ub lb by simp
qed

lemma round_double_representable:
  assumes "representable x"
  shows "round_double x = x"
proof (cases "x = 0")
  case True
  then show ?thesis by simp
next
  case False
  from assms obtain m k where x: "x = of_int m * pow2 k" and m: "\<bar>m\<bar> \<le> 2 ^ 53" and k: "- 1074 \<le> k"
    by (auto simp: representable_def)
  define a where "a = \<bar>x\<bar>"
  define q where "q = max (floor_log2 a - 52) (- 1074)"
  have apos: "0 < a" using False by (simp add: a_def)
  have am: "a = of_int \<bar>m\<bar> * pow2 k" by (simp add: a_def x abs_mult)
  have fl: "floor_log2 a \<le> 53 + k" "floor_log2 a = 53 + k \<Longrightarrow> a = pow2 (53 + k)"
    using pos_quantum [OF apos, of "\<bar>m\<bar>" k] am m by simp_all
  have "\<exists>j. a / pow2 q = of_int j"
  proof (cases "q \<le> k")
    case True
    have "a / pow2 q = of_int \<bar>m\<bar> * pow2 (k - q)" by (simp add: am pow2_diff)
    also have "\<dots> = of_int (\<bar>m\<bar> * 2 ^ nat (k - q))" using True by (simp add: pow2_nat)
    finally show ?thesis by blast
  next
    case False
    with k fl(1) have e: "floor_log2 a = 53 + k" and qk: "q = k + 1" by (auto simp: q_def)
    have "a / pow2 q = pow2 (53 + k - (k + 1))" unfolding fl(2) [OF e] qk by (simp only: pow2_diff)
    also have "\<dots> = of_int (2 ^ 52)" by (simp add: pow2_nat)
    finally show ?thesis by blast
  qed
  then obtain j where j: "a / pow2 q = of_int j" ..
  have "round_double x = sgn x * of_int (round_half_even (a / pow2 q)) * pow2 q"
    using \<open>x \<noteq> 0\<close> by (simp add: round_double_def Let_def a_def q_def)
  also have "\<dots> = sgn x * (a / pow2 q) * pow2 q" by (simp add: j)
  also have "\<dots> = x" by (simp add: a_def mult_sgn_abs)
  finally show ?thesis .
qed

lemma representable_of_int: "\<bar>n\<bar> \<le> 2 ^ 53 \<Longrightarrow> representable (of_int n)"
  unfolding representable_def by (rule exI [of _ n], rule exI [of _ 0]) simp

lemma round_double_of_int: "\<bar>n\<bar> \<le> 2 ^ 53 \<Longrightarrow> round_double (of_int n) = of_int n"
  by (simp add: round_double_representable representable_of_int)


lemma round_double_pos:
  "0 < x \<Longrightarrow> round_double x =
     of_int (round_half_even (x / pow2 (max (floor_log2 x - 52) (- 1074))))
       * pow2 (max (floor_log2 x - 52) (- 1074))"
  by (simp add: round_double_def Let_def)

lemma representable_minus: "representable (- r) = representable r"
proof -
  have "representable (- r)" if "representable r" for r
  proof -
    from that obtain m k where "r = of_int m * pow2 k" "\<bar>m\<bar> \<le> 2 ^ 53" "- 1074 \<le> k"
      by (auto simp: representable_def)
    then have "- r = of_int (- m) * pow2 k \<and> \<bar>- m\<bar> \<le> 2 ^ 53 \<and> - 1074 \<le> k" by simp
    then show ?thesis unfolding representable_def by blast
  qed
  from this [of r] this [of "- r"] show ?thesis by auto
qed

lemma round_double_le_pos:
  assumes "0 < x" "x \<le> r" "representable r"
  shows "round_double x \<le> r"
proof -
  from assms(3) obtain m k where r: "r = of_int m * pow2 k" and m: "\<bar>m\<bar> \<le> 2 ^ 53" and k: "- 1074 \<le> k"
    by (auto simp: representable_def)
  define q where "q = max (floor_log2 x - 52) (- 1074)"
  have rd: "round_double x = of_int (round_half_even (x / pow2 q)) * pow2 q"
    using assms(1) by (simp add: round_double_pos q_def)
  have fl: "floor_log2 x \<le> 53 + k" "floor_log2 x = 53 + k \<Longrightarrow> x = pow2 (53 + k)"
    using pos_quantum [OF assms(1), of m k] assms(2) m r by simp_all
  show ?thesis
  proof (cases "q \<le> k")
    case True
    have "r / pow2 q = of_int m * pow2 (k - q)" by (simp add: r pow2_diff)
    also have "\<dots> = of_int (m * 2 ^ nat (k - q))" using True by (simp add: pow2_nat)
    finally have rq: "r / pow2 q = of_int (m * 2 ^ nat (k - q))" .
    have "x / pow2 q \<le> r / pow2 q" using assms(2) by (simp add: divide_right_mono)
    then have "round_half_even (x / pow2 q) \<le> m * 2 ^ nat (k - q)"
      unfolding rq by (rule rhe_le)
    then have "(of_int (round_half_even (x / pow2 q)) :: rat) \<le> of_int (m * 2 ^ nat (k - q))"
      by (simp only: of_int_le_iff)
    then have "of_int (round_half_even (x / pow2 q)) * pow2 q \<le> (r / pow2 q) * pow2 q"
      unfolding rq by (intro mult_right_mono) simp_all
    then show ?thesis by (simp add: rd)
  next
    case False
    with k fl(1) have e: "floor_log2 x = 53 + k" by (auto simp: q_def)
    have "(of_int m :: rat) \<le> of_int (2 ^ 53)" using m by (simp only: of_int_le_iff)
    then have "r \<le> 2 ^ 53 * pow2 k" unfolding r by (intro mult_right_mono) simp_all
    also have "\<dots> = pow2 (53 + k)" by (simp add: pow2_add pow2_nat)
    finally have "r = x" using fl(2) [OF e] assms(2) by simp
    then show ?thesis using assms(3) by (simp add: round_double_representable)
  qed
qed

lemma round_double_ge_pos:
  assumes "0 < r" "r \<le> x" "representable r"
  shows "r \<le> round_double x"
proof -
  from assms(3) obtain m k where r: "r = of_int m * pow2 k" and m: "\<bar>m\<bar> \<le> 2 ^ 53" and k: "- 1074 \<le> k"
    by (auto simp: representable_def)
  have xpos: "0 < x" using assms by linarith
  define e where "e = floor_log2 x"
  define q where "q = max (e - 52) (- 1074)"
  have rd: "round_double x = of_int (round_half_even (x / pow2 q)) * pow2 q"
    using xpos by (simp add: round_double_pos q_def e_def)
  have eb: "pow2 e \<le> x" using floor_log2_bounds [OF xpos] by (simp add: e_def)
  show ?thesis
  proof (cases "q \<le> k")
    case True
    have "r / pow2 q = of_int m * pow2 (k - q)" by (simp add: r pow2_diff)
    also have "\<dots> = of_int (m * 2 ^ nat (k - q))" using True by (simp add: pow2_nat)
    finally have rq: "r / pow2 q = of_int (m * 2 ^ nat (k - q))" .
    have "r / pow2 q \<le> x / pow2 q" using assms(2) by (simp add: divide_right_mono)
    then have "m * 2 ^ nat (k - q) \<le> round_half_even (x / pow2 q)"
      unfolding rq by (rule rhe_ge)
    then have "(of_int (m * 2 ^ nat (k - q)) :: rat) \<le> of_int (round_half_even (x / pow2 q))"
      by (simp only: of_int_le_iff)
    then have "(r / pow2 q) * pow2 q \<le> of_int (round_half_even (x / pow2 q)) * pow2 q"
      unfolding rq by (intro mult_right_mono) simp_all
    then show ?thesis by (simp add: rd)
  next
    case False
    with k have qe: "q = e - 52" and kq: "k + 1 \<le> q" by (auto simp: q_def)
    have "(of_int m :: rat) \<le> of_int (2 ^ 53)" using m by (simp only: of_int_le_iff)
    then have "r \<le> 2 ^ 53 * pow2 k" unfolding r by (intro mult_right_mono) simp_all
    also have "\<dots> = pow2 (53 + k)" by (simp add: pow2_add pow2_nat)
    also have "\<dots> \<le> pow2 e" using kq qe by (intro pow2_mono) simp
    finally have re: "r \<le> pow2 e" .
    have "pow2 e / pow2 q = pow2 52" unfolding qe by (simp flip: pow2_diff)
    also have "\<dots> = of_int (2 ^ 52)" by (simp add: pow2_nat)
    finally have eq: "pow2 e / pow2 q = of_int (2 ^ 52)" .
    have "pow2 e / pow2 q \<le> x / pow2 q" using eb by (simp add: divide_right_mono)
    then have "2 ^ 52 \<le> round_half_even (x / pow2 q)"
      unfolding eq by (rule rhe_ge)
    then have "(of_int (2 ^ 52) :: rat) \<le> of_int (round_half_even (x / pow2 q))"
      by (simp only: of_int_le_iff)
    then have "(pow2 e / pow2 q) * pow2 q \<le> of_int (round_half_even (x / pow2 q)) * pow2 q"
      unfolding eq by (intro mult_right_mono) simp_all
    then have "pow2 e \<le> round_double x" by (simp add: rd)
    with re show ?thesis by linarith
  qed
qed

lemma round_double_nonpos: "x \<le> 0 \<Longrightarrow> round_double x \<le> 0"
  using round_double_nonneg [of "- x"] by (simp add: round_double_minus)

lemma round_double_le:
  assumes "x \<le> r" "representable r"
  shows "round_double x \<le> r"
proof -
  consider "0 < x" | "x \<le> 0" "0 \<le> r" | "x \<le> 0" "r < 0" by linarith
  then show ?thesis
  proof cases
    case 1
    then show ?thesis using assms by (rule round_double_le_pos)
  next
    case 2
    then show ?thesis using round_double_nonpos [of x] by linarith
  next
    case 3
    have "- r \<le> round_double (- x)"
      using 3 assms by (intro round_double_ge_pos) (simp_all add: representable_minus)
    then show ?thesis by (simp add: round_double_minus)
  qed
qed

lemma round_double_ge:
  assumes "r \<le> x" "representable r"
  shows "r \<le> round_double x"
  using round_double_le [of "- x" "- r"] assms
  by (simp add: round_double_minus representable_minus)

lemma round_double_rel_error:
  assumes "pow2 (- 1022) \<le> \<bar>x\<bar>"
  shows "\<bar>round_double x - x\<bar> \<le> \<bar>x\<bar> / 2 ^ 53"
proof -
  define a where "a = \<bar>x\<bar>"
  have apos: "0 < a" using assms pow2_pos [of "- 1022"] unfolding a_def by linarith
  then have x0: "x \<noteq> 0" by (auto simp: a_def)
  define e where "e = floor_log2 a"
  have eb: "pow2 e \<le> a" "a < pow2 (e + 1)" using floor_log2_bounds [OF apos] by (simp_all add: e_def)
  have "pow2 (- 1022) < pow2 (e + 1)" using assms eb(2) by (simp add: a_def)
  then have e: "- 1022 \<le> e" by (auto dest: pow2_less_cancel)
  define q where "q = e - 52"
  define m where "m = round_half_even (a / pow2 q)"
  have "max (floor_log2 \<bar>x\<bar> - 52) (- 1074) = q"
    using e by (simp add: q_def e_def a_def)
  then have rd: "round_double x = sgn x * of_int m * pow2 q"
    using x0 by (simp add: round_double_def Let_def m_def a_def)
  have "x = sgn x * a" by (simp add: a_def mult_sgn_abs)
  then have "round_double x - x = sgn x * of_int m * pow2 q - sgn x * a" by (simp add: rd)
  then have "round_double x - x = sgn x * (of_int m * pow2 q - a)"
    by (simp add: right_diff_distrib mult.assoc)
  then have "\<bar>round_double x - x\<bar> = \<bar>of_int m * pow2 q - a\<bar>"
    using x0 by (simp add: abs_mult abs_sgn_eq)
  also have "\<dots> = \<bar>of_int m - a / pow2 q\<bar> * pow2 q"
  proof -
    have "of_int m * pow2 q - a = (of_int m - a / pow2 q) * pow2 q" by (simp add: algebra_simps)
    then show ?thesis by (simp add: abs_mult)
  qed
  also have "\<dots> \<le> (1 / 2) * pow2 q"
    using rhe_error [of "a / pow2 q"] unfolding m_def by (intro mult_right_mono) simp_all
  also have "\<dots> = pow2 e / 2 ^ 53"
  proof -
    have "pow2 q = pow2 e / pow2 52" by (simp add: q_def pow2_diff)
    then show ?thesis by (simp add: pow2_nat)
  qed
  also have "\<dots> \<le> a / 2 ^ 53" using eb(1) by (simp add: divide_right_mono)
  finally show ?thesis by (simp add: a_def)
qed

section \<open>Properties of the layout engine\<close>

lemma representable_pow2: "- 1074 \<le> k \<Longrightarrow> representable (pow2 k)"
  unfolding representable_def by (rule exI [of _ 1], rule exI [of _ k]) simp

lemma finite_double_small: "\<bar>r\<bar> \<le> 2 ^ 1023 \<Longrightarrow> finite_double r = Inr r"
proof -
  assume "\<bar>r\<bar> \<le> 2 ^ 1023"
  moreover have "(2::rat) ^ 1023 = pow2 1023" by (simp add: pow2_nat)
  moreover have "pow2 1023 < pow2 1024" by (rule pow2_strict_mono) simp
  ultimately show ?thesis by (simp add: finite_double_def)
qed

text \<open>The bound \<open>2 ^ 1024\<close> written out, for evaluation.\<close>

lemma finite_double_code [code]:
  "finite_double r =
     (if 179769313486231590772930519078902473361797697894230657273430081157732675805500963132708477322407536021120113879871393357658789768814416622492847430639474124377767893424865485276302219601246094119453082952085005768838150682342462881473913110540827237163350510684586298239947245938479716304835356329624224137216 \<le> \<bar>r\<bar>
      then Inl OverflowError else Inr r)"
  by (simp add: finite_double_def pow2_def)

lemma float_of_int_exact: "\<bar>n\<bar> \<le> 2 ^ 53 \<Longrightarrow> float_of_int n = Inr (of_int n)"
proof -
  assume n: "\<bar>n\<bar> \<le> 2 ^ 53"
  then have "(of_int \<bar>n\<bar> :: rat) \<le> of_int (2 ^ 53)" by (simp only: of_int_le_iff)
  moreover have "(2::rat) ^ 53 \<le> 2 ^ 1023" by (rule power_increasing) simp_all
  ultimately have "\<bar>of_int n :: rat\<bar> \<le> 2 ^ 1023" by simp
  then show ?thesis
    using n by (simp add: float_of_int_def round_double_of_int finite_double_small)
qed

lemma float_of_int_range:
  assumes "0 < n" "n \<le> 2 ^ 1023"
  shows "\<exists>y. float_of_int n = Inr y \<and> 1 \<le> y"
proof -
  have "(of_int 1 :: rat) \<le> of_int n" using assms(1) by (simp only: of_int_le_iff)
  then have lo: "1 \<le> round_double (of_int n)"
    using round_double_ge [of 1 "of_int n"] representable_of_int [of 1] by simp
  have "(of_int n :: rat) \<le> of_int (2 ^ 1023)" using assms(2) by (simp only: of_int_le_iff)
  then have "(of_int n :: rat) \<le> pow2 1023" by (simp add: pow2_nat)
  then have "round_double (of_int n) \<le> pow2 1023"
    by (rule round_double_le) (simp add: representable_pow2)
  then have "\<bar>round_double (of_int n)\<bar> \<le> 2 ^ 1023" using lo by (simp add: pow2_nat)
  then show ?thesis using lo by (simp add: float_of_int_def finite_double_small)
qed

lemma float_of_int_0 [simp]: "float_of_int 0 = Inr 0"
  by (simp add: float_of_int_def finite_double_def)

lemma corr_factor_zero:
  assumes "0 < d" "d \<le> 2 ^ 1023"
  shows "corr_factor 0 d = Inr 0"
proof -
  from float_of_int_range [OF assms] obtain y where "float_of_int d = Inr y" "1 \<le> y" by blast
  then show ?thesis by (simp add: corr_factor_def)
qed

lemma floor_scaled_zero:
  assumes "0 \<le> n" "n \<le> 2 ^ 1023"
  shows "floor_scaled 0 n = Inr 0"
proof (cases "n = 0")
  case True
  then show ?thesis by (simp add: floor_scaled_def finite_double_def)
next
  case False
  with assms have "0 < n" by simp
  from float_of_int_range [OF this assms(2)] obtain y where "float_of_int n = Inr y" by blast
  then show ?thesis by (simp add: floor_scaled_def finite_double_def)
qed

lemma fit_image_zero_bounds:
  assumes "0 \<le> w" "w \<le> 2 ^ 1023" "0 \<le> h" "h \<le> 2 ^ 1023"
  shows "fit_image w h 0 0 = Inr (0, 0)"
proof (cases "0 < h")
  case True
  then have "fit_height (w, h) 0 = Inr (0, 0)"
    using assms by (simp add: fit_height_def corr_factor_zero floor_scaled_zero)
  then show ?thesis by (simp add: fit_image_def fit_width_def fit_height_def)
next
  case False
  with assms have h: "h = 0" by simp
  show ?thesis
  proof (cases "0 < w")
    case True
    then show ?thesis
      using assms h by (simp add: fit_image_def fit_width_def fit_height_def corr_factor_zero floor_scaled_zero)
  next
    case False
    with assms have "w = 0" by simp
    then show ?thesis using h by (simp add: fit_image_def fit_width_def fit_height_def)
  qed
qed

lemma fit_image_noop: "h \<le> H \<Longrightarrow> w \<le> W \<Longrightarrow> fit_image w h W H = Inr (w, h)"
  by (simp add: fit_image_def fit_width_def fit_height_def)


lemma scale_bounds:
  assumes a: "0 \<le> a" "a < b" and c: "0 \<le> c" and small: "b < 2 ^ 25" "c < 2 ^ 25"
  shows "\<exists>cf k. corr_factor a b = Inr cf \<and> floor_scaled cf c = Inr k
           \<and> 0 \<le> k \<and> k * b \<le> a * c \<and> a * c \<le> (k + 1) * b"
proof -
  define A B C :: rat where "A = of_int a" and "B = of_int b" and "C = of_int c"
  have fb: "float_of_int b = Inr B" and fa: "float_of_int a = Inr A" and fc: "float_of_int c = Inr C"
    using a c small by (simp_all add: float_of_int_exact A_def B_def C_def)
  have B1: "1 \<le> B" and A0: "0 \<le> A" and AB: "A < B" and C0: "0 \<le> C"
    using a c by (simp_all add: A_def B_def C_def)
  define cf where "cf = round_double (A / B)"
  have cfd: "corr_factor a b = Inr cf"
    using B1 by (simp add: corr_factor_def fa fb cf_def)
  define r where "r = round_double (cf * C)"
  have cf0: "0 \<le> cf" unfolding cf_def using A0 B1 by (intro round_double_nonneg) simp
  have r0: "0 \<le> r" unfolding r_def using cf0 C0 by (intro round_double_nonneg) simp
  define t where "t = A * C / B"
  have t0: "0 \<le> t" using A0 B1 C0 by (simp add: t_def)
  have close: "\<bar>r - t\<bar> * B < 1"
  proof (cases "a = 0 \<or> c = 0")
    case True
    then have "cf * C = 0" "t = 0" by (auto simp: cf_def A_def C_def t_def)
    then have "r = 0" "t = 0" by (simp_all only: r_def round_double_0)
    then show ?thesis by simp
  next
    case False
    with a c have "1 \<le> a" "1 \<le> c" by simp_all
    then have A1: "1 \<le> A" and C1: "1 \<le> C"
      by (simp_all add: A_def C_def)
    have Bs: "B \<le> 2 ^ 25" and Cs: "C \<le> 2 ^ 25"
    proof -
      have "(of_int b :: rat) \<le> of_int (2 ^ 25)" "(of_int c :: rat) \<le> of_int (2 ^ 25)"
        using small by (simp_all only: of_int_le_iff)
      then show "B \<le> 2 ^ 25" "C \<le> 2 ^ 25" by (simp_all add: B_def C_def)
    qed
    define x where "x = A / B"
    have xlow: "pow2 (- 25) \<le> x"
    proof -
      have "1 / 2 ^ 25 \<le> 1 / B" using Bs B1 by (simp add: field_simps)
      also have "\<dots> \<le> A / B" using A1 B1 by (simp add: divide_right_mono)
      finally show ?thesis by (simp add: x_def pow2_def power_int_minus_divide)
    qed
    have xpos: "0 < x" using xlow pow2_pos [of "- 25"] by linarith
    have "pow2 (- 1022) \<le> pow2 (- 25)" by (rule pow2_mono) simp
    then have "pow2 (- 1022) \<le> \<bar>x\<bar>" using xlow xpos by simp
    from round_double_rel_error [OF this]
    have e1: "\<bar>cf - x\<bar> \<le> x / 2 ^ 53" using xpos by (simp add: cf_def x_def)
    have cflow: "pow2 (- 25) \<le> cf"
      unfolding cf_def using xlow unfolding x_def
      by (rule round_double_ge) (simp add: representable_pow2)
    define y where "y = cf * C"
    have "pow2 (- 25) * 1 \<le> cf * C"
      using cflow C1 cf0 by (intro mult_mono) simp_all
    then have ylow: "pow2 (- 25) \<le> y" by (simp add: y_def)
    have ypos: "0 < y" using ylow pow2_pos [of "- 25"] by linarith
    have "pow2 (- 1022) \<le> \<bar>y\<bar>" using \<open>pow2 (- 1022) \<le> pow2 (- 25)\<close> ylow ypos by simp
    from round_double_rel_error [OF this]
    have e2: "\<bar>r - y\<bar> \<le> y / 2 ^ 53" using ypos by (simp add: r_def y_def)
    have tx: "t = x * C" by (simp add: t_def x_def)
    have "\<bar>y - t\<bar> = \<bar>cf - x\<bar> * C"
    proof -
      have "y - t = (cf - x) * C" by (simp add: y_def tx left_diff_distrib)
      then show ?thesis using C0 by (simp add: abs_mult)
    qed
    also have "\<dots> \<le> (x / 2 ^ 53) * C" using e1 C0 by (rule mult_right_mono)
    also have "\<dots> = t / 2 ^ 53" by (simp add: tx)
    finally have e3: "\<bar>y - t\<bar> \<le> t / 2 ^ 53" .
    have "y \<le> t + t / 2 ^ 53" using e3 by linarith
    also have "\<dots> \<le> 2 * t" using t0 by (simp add: field_simps)
    finally have y2: "y \<le> 2 * t" .
    have "\<bar>r - t\<bar> \<le> \<bar>r - y\<bar> + \<bar>y - t\<bar>" by linarith
    also have "\<dots> \<le> y / 2 ^ 53 + t / 2 ^ 53" using e2 e3 by linarith
    also have "\<dots> \<le> (2 * t) / 2 ^ 53 + t / 2 ^ 53"
      using y2 by (simp add: divide_right_mono)
    also have "\<dots> = 3 * t / 2 ^ 53" by simp
    finally have e4: "\<bar>r - t\<bar> \<le> 3 * t / 2 ^ 53" .
    have tB: "t * B = A * C" using B1 by (simp add: t_def)
    have "A * C \<le> 2 ^ 25 * 2 ^ 25"
      using AB Bs Cs A0 C0 by (intro mult_mono) simp_all
    then have AC: "A * C \<le> 2 ^ 50" by simp
    have "\<bar>r - t\<bar> * B \<le> (3 * t / 2 ^ 53) * B"
      using e4 B1 by (intro mult_right_mono) simp_all
    also have "\<dots> = 3 * (A * C) / 2 ^ 53" using tB by (simp add: mult.commute mult.assoc)
    also have "\<dots> \<le> 3 * 2 ^ 50 / 2 ^ 53" using AC by (simp add: divide_right_mono)
    also have "\<dots> < 1" by simp
    finally show ?thesis .
  qed
  have Bpos: "0 < B" using B1 by linarith
  have up: "r * B < A * C + 1" and lo: "A * C - 1 < r * B"
  proof -
    have "\<bar>(r - t) * B\<bar> < 1" using close Bpos by (simp add: abs_mult)
    moreover have "(r - t) * B = r * B - A * C" using Bpos by (simp add: t_def left_diff_distrib)
    ultimately show "r * B < A * C + 1" "A * C - 1 < r * B" by linarith+
  qed
  have rfin: "finite_double r = Inr r"
  proof -
    have "r * 1 \<le> r * B" using r0 B1 by (intro mult_left_mono) simp_all
    then have "r < A * C + 1" using up by simp
    moreover have "A * C \<le> 2 ^ 25 * 2 ^ 25"
    proof -
      have "(of_int b :: rat) \<le> of_int (2 ^ 25)" "(of_int c :: rat) \<le> of_int (2 ^ 25)"
        using small by (simp_all only: of_int_le_iff)
      then have "B \<le> 2 ^ 25" "C \<le> 2 ^ 25" by (simp_all add: B_def C_def)
      then show ?thesis using AB A0 C0 by (intro mult_mono) simp_all
    qed
    moreover have "(2::rat) ^ 25 * 2 ^ 25 + 1 \<le> 2 ^ 1023"
    proof -
      have "(2::rat) ^ 51 \<le> 2 ^ 1023" by (rule power_increasing) simp_all
      then show ?thesis by simp
    qed
    ultimately have "\<bar>r\<bar> \<le> 2 ^ 1023" using r0 by simp
    then show ?thesis by (rule finite_double_small)
  qed
  define k where "k = \<lfloor>r\<rfloor>"
  have fs: "floor_scaled cf c = Inr k"
    by (simp add: floor_scaled_def fc rfin k_def flip: r_def)
  have k0: "0 \<le> k" using r0 by (simp add: k_def)
  have kr: "of_int k \<le> r" "r < of_int k + 1" unfolding k_def by linarith+
  have "of_int k * B \<le> r * B" using kr(1) Bpos by (simp add: mult_right_mono)
  then have "of_int (k * b) < (of_int (a * c + 1) :: rat)"
    using up by (simp add: A_def B_def C_def)
  then have "k * b < a * c + 1" by (simp only: of_int_less_iff)
  then have r1: "k * b \<le> a * c" by simp
  have "r * B < (of_int k + 1) * B" using kr(2) Bpos by (simp add: mult_strict_right_mono)
  then have "(of_int (a * c - 1) :: rat) < of_int ((k + 1) * b)"
    using lo by (simp add: A_def B_def C_def)
  then have "a * c - 1 < (k + 1) * b" by (simp only: of_int_less_iff)
  then have r2: "a * c \<le> (k + 1) * b" by simp
  show ?thesis using cfd fs k0 r1 r2 by blast
qed


lemma fit_height_scaled:
  assumes "0 \<le> H" "H < h" "0 \<le> w" "h < 2 ^ 25" "w < 2 ^ 25"
  shows "\<exists>w1. fit_height (w, h) H = Inr (w1, H) \<and> 0 \<le> w1
           \<and> w1 * h \<le> H * w \<and> H * w \<le> (w1 + 1) * h"
proof -
  from scale_bounds [OF assms(1,2,3,4,5)] obtain cf k where
    "corr_factor H h = Inr cf" "floor_scaled cf w = Inr k"
    "0 \<le> k" "k * h \<le> H * w" "H * w \<le> (k + 1) * h" by blast
  then show ?thesis using assms(2) by (simp add: fit_height_def)
qed

lemma fit_width_scaled:
  assumes "0 \<le> W" "W < w" "0 \<le> h" "w < 2 ^ 25" "h < 2 ^ 25"
  shows "\<exists>h1. fit_width (w, h) W = Inr (W, h1) \<and> 0 \<le> h1
           \<and> h1 * w \<le> W * h \<and> W * h \<le> (h1 + 1) * w"
proof -
  from scale_bounds [OF assms(1,2,3,4,5)] obtain cf k where
    "corr_factor W w = Inr cf" "floor_scaled cf h = Inr k"
    "0 \<le> k" "k * w \<le> W * h" "W * h \<le> (k + 1) * w" by blast
  then show ?thesis using assms(2) by (simp add: fit_width_def)
qed

lemma int_le_by_mult: "(x::int) * c \<le> y * c \<Longrightarrow> 0 < c \<Longrightarrow> x \<le> y"
  by simp

lemma fit_image_bounded:
  assumes nn: "0 \<le> w" "0 \<le> h" "0 \<le> W" "0 \<le> H"
    and small: "w < 2 ^ 25" "h < 2 ^ 25" "W < 2 ^ 25" "H < 2 ^ 25"
  shows "\<exists>w' h'. fit_image w h W H = Inr (w', h') \<and> 0 \<le> w' \<and> w' \<le> W \<and> 0 \<le> h' \<and> h' \<le> H
           \<and> \<bar>w' * h - h' * w\<bar> \<le> max w h"
proof (cases "H < h")
  case False
  note hH = this
  show ?thesis
  proof (cases "W < w")
    case False
    with hH nn show ?thesis
      by (simp add: fit_image_def fit_height_def fit_width_def)
  next
    case True
    from fit_width_scaled [OF nn(3) True nn(2) small(1,2)] obtain h1 where
      fw: "fit_width (w, h) W = Inr (W, h1)" and h1: "0 \<le> h1"
      and lo: "h1 * w \<le> W * h" and hi: "W * h \<le> (h1 + 1) * w" by blast
    have wpos: "0 < w" using True nn by linarith
    have "W * h \<le> w * h" using True nn(2) by (intro mult_right_mono) simp_all
    with lo have "h1 * w \<le> h * w" by (simp add: mult.commute)
    then have "h1 \<le> h" using wpos by (rule int_le_by_mult)
    then have h1H: "h1 \<le> H" using hH by linarith
    have "fit_height (w, h) H = Inr (w, h)" "fit_height (W, h1) H = Inr (W, h1)"
      using hH h1H by (simp_all add: fit_height_def)
    then have fit: "fit_image w h W H = Inr (W, h1)"
      by (simp add: fit_image_def fw)
    have "\<bar>W * h - h1 * w\<bar> \<le> w" using lo hi by (simp add: abs_le_iff algebra_simps)
    then have "\<bar>W * h - h1 * w\<bar> \<le> max w h" by simp
    with fit h1 h1H nn show ?thesis by simp
  qed
next
  case True
  from fit_height_scaled [OF nn(4) True nn(1) small(2,1)] obtain w1 where
    fh: "fit_height (w, h) H = Inr (w1, H)" and w1: "0 \<le> w1"
    and lo1: "w1 * h \<le> H * w" and hi1: "H * w \<le> (w1 + 1) * h" by blast
  have hpos: "0 < h" using True nn by linarith
  have "H * w \<le> h * w" using True nn(1) by (intro mult_right_mono) simp_all
  with lo1 have "w1 * h \<le> w * h" by (simp add: mult.commute)
  then have w1w: "w1 \<le> w" using hpos by (rule int_le_by_mult)
  show ?thesis
  proof (cases "W < w1")
    case False
    then have "fit_width (w1, H) W = Inr (w1, H)" "fit_height (w1, H) H = Inr (w1, H)"
      by (simp_all add: fit_width_def fit_height_def)
    then have fit: "fit_image w h W H = Inr (w1, H)"
      by (simp add: fit_image_def fh)
    have "\<bar>w1 * h - H * w\<bar> \<le> h" using lo1 hi1 by (simp add: abs_le_iff algebra_simps)
    then have "\<bar>w1 * h - H * w\<bar> \<le> max w h" by simp
    with fit w1 False nn show ?thesis by simp
  next
    case True
    have w1s: "w1 < 2 ^ 25" using w1w small by linarith
    from fit_width_scaled [OF nn(3) True nn(4) w1s small(4)] obtain h2 where
      fw: "fit_width (w1, H) W = Inr (W, h2)" and h2: "0 \<le> h2"
      and lo2: "h2 * w1 \<le> W * H" and hi2: "W * H \<le> (h2 + 1) * w1" by blast
    have w1pos: "0 < w1" using True nn by linarith
    have "W * H \<le> w1 * H" using True nn(4) by (intro mult_right_mono) simp_all
    with lo2 have "h2 * w1 \<le> H * w1" by (simp add: mult.commute)
    then have h2H: "h2 \<le> H" using w1pos by (rule int_le_by_mult)
    have "fit_height (W, h2) H = Inr (W, h2)"
      using h2H by (simp add: fit_height_def)
    then have fit: "fit_image w h W H = Inr (W, h2)"
      by (simp add: fit_image_def fh fw)
    have up: "h2 * w - W * h \<le> h"
    proof -
      have "(h2 * w1) * w \<le> (W * H) * w" using lo2 nn(1) by (rule mult_right_mono)
      also have "\<dots> = W * (H * w)" by (simp add: mult.assoc)
      also have "\<dots> \<le> W * ((w1 + 1) * h)" using hi1 nn(3) by (rule mult_left_mono)
      finally have "(h2 * w - W * h) * w1 \<le> W * h" by (simp add: algebra_simps)
      also have "\<dots> \<le> w1 * h" using True nn(2) by (intro mult_right_mono) simp_all
      finally have "(h2 * w - W * h) * w1 \<le> h * w1" by (simp add: mult.commute)
      then show ?thesis using w1pos by (rule int_le_by_mult)
    qed
    have down: "W * h - h2 * w \<le> w"
    proof -
      have "W * (w1 * h) \<le> W * (H * w)" using lo1 nn(3) by (rule mult_left_mono)
      also have "\<dots> = (W * H) * w" by (simp add: mult.assoc)
      also have "\<dots> \<le> ((h2 + 1) * w1) * w" using hi2 nn(1) by (rule mult_right_mono)
      finally have "(W * h - h2 * w) * w1 \<le> w * w1" by (simp add: algebra_simps)
      then show ?thesis using w1pos by (rule int_le_by_mult)
    qed
    have "\<bar>W * h - h2 * w\<bar> \<le> max w h" using up down by (simp add: abs_le_iff) linarith
    with fit h2 h2H nn show ?thesis by simp
  qed
qed

subsection \<open>Evaluating at concrete sizes\<close>

lemma floor_rat_numeral:
  "\<lfloor>(numeral a :: rat) / numeral b\<rfloor> = numeral a div numeral b"
  using floor_divide_of_int_eq [of "numeral a" "numeral b", where ?'a = rat] by simp

lemma ceiling_rat_numeral:
  "\<lceil>(numeral a :: rat) / numeral b\<rceil> = - ((- numeral a) div numeral b)"
  using floor_divide_of_int_eq [of "- numeral a" "numeral b", where ?'a = rat]
  by (simp add: ceiling_def)

lemma round_double_dyadic:
  assumes "\<bar>m\<bar> \<le> 2 ^ 53" "j \<le> 1074"
  shows "round_double (of_int m / 2 ^ j) = of_int m / 2 ^ j"
proof -
  have "(of_int m :: rat) / 2 ^ j = of_int m * pow2 (- int j)"
    by (simp add: pow2_def power_int_minus_divide)
  moreover have "representable (of_int m * pow2 (- int j))"
    unfolding representable_def using assms by (intro exI [of _ m] exI [of _ "- int j"]) simp
  ultimately show ?thesis by (simp add: round_double_representable)
qed

lemma round_double_numeral:
  "numeral k \<le> (2 ^ 53 :: int) \<Longrightarrow> round_double (numeral k) = numeral k"
  using round_double_of_int [of "numeral k"] by simp

lemma round_double_1 [simp]: "round_double 1 = 1"
  using round_double_of_int [of 1] by simp

lemma rd_half: "round_double (1 / 2) = 1 / 2"
  using round_double_dyadic [of 1 1] by simp

lemma rd_125_2: "round_double (125 / 2) = 125 / 2"
  using round_double_dyadic [of 125 1] by simp

lemma finite_double_numeral:
  "numeral k \<le> (2 ^ 1023 :: rat) \<Longrightarrow> finite_double (numeral k) = Inr (numeral k)"
  by (rule finite_double_small) simp

lemma float_of_int_1000: "float_of_int 1000 = Inr 1000" "float_of_int 2000 = Inr 2000"
  by (simp_all add: float_of_int_exact)

lemma fit_image_2000_1000: "fit_image 2000 1000 1000 1000 = Inr (1000, 500)"
  by (simp add: fit_image_def fit_height_def fit_width_def corr_factor_def floor_scaled_def
      float_of_int_exact rd_half round_double_numeral finite_double_numeral)

lemma rd_odd: "round_double 9007199254740995 = 9007199254740996"
  using round_double_eval [of 53 "9007199254740995"]
  by (simp add: pow2_def round_half_even_def Let_def floor_rat_numeral)

lemma rd_even: "round_double 9007199254740996 = 9007199254740996"
  using round_double_eval [of 53 "9007199254740996"]
  by (simp add: pow2_def round_half_even_def Let_def floor_rat_numeral)

lemma float_of_int_huge: "float_of_int 9007199254740995 = Inr 9007199254740996"
  "float_of_int 9007199254740996 = Inr 9007199254740996"
  by (simp_all add: float_of_int_def rd_odd rd_even finite_double_numeral)

lemma fit_image_huge: "fit_image 9007199254740996 9007199254740995 9007199254740995 9007199254740995
  = Inr (9007199254740996, 9007199254740995)"
  by (simp add: fit_image_def fit_height_def fit_width_def corr_factor_def floor_scaled_def
      float_of_int_huge round_double_numeral finite_double_numeral rd_even)

section \<open>Properties of the transport encoder\<close>

subsection \<open>Base64\<close>

lemma b64_val_char: "i < 64 \<Longrightarrow> b64_val (b64_char i) = i"
proof -
  assume i: "i < 64"
  consider "i < 26" | "26 \<le> i" "i < 52" | "52 \<le> i" "i < 62" | "i = 62" | "i = 63"
    using i by linarith
  then show ?thesis
  proof cases
    case 1
    then show ?thesis by (simp add: b64_val_def b64_char_def)
  next
    case 2
    then show ?thesis by (simp add: b64_val_def b64_char_def)
  next
    case 3
    then show ?thesis by (auto simp add: b64_val_def b64_char_def Let_def)
  next
    case 4
    then show ?thesis by (simp add: b64_val_def b64_char_def)
  next
    case 5
    then show ?thesis by (simp add: b64_val_def b64_char_def)
  qed
qed

lemma of_char_b64_char:
  "i < 64 \<Longrightarrow> (of_char (b64_char i) :: nat) =
     (if i < 26 then 65 + i else if i < 52 then 71 + i else if i < 62 then i - 4
      else if i = 62 then 43 else 47)"
  by (simp add: b64_char_def)

lemma b64_char_not_pad: "i < 64 \<Longrightarrow> b64_char i \<noteq> CHR ''=''"
proof
  assume "i < 64" "b64_char i = CHR ''=''"
  then have "(of_char (b64_char i) :: nat) = 61" by simp
  with \<open>i < 64\<close> show False by (simp add: of_char_b64_char split: if_splits)
qed

lemma sextet_bounds:
  fixes A B C :: nat
  assumes "A < 256" "B < 256" "C < 256"
  shows "A div 4 < 64" "(A mod 4) * 16 + B div 16 < 64" "(B mod 16) * 4 + C div 64 < 64"
    "C mod 64 < 64" "(A mod 4) * 16 < 64" "(B mod 16) * 4 < 64"
  using assms by simp_all

lemma sextet_join:
  fixes A B C :: nat
  assumes "A < 256" "B < 256" "C < 256"
  shows "A div 4 * 4 + ((A mod 4) * 16 + B div 16) div 16 = A"
    "(((A mod 4) * 16 + B div 16) mod 16) * 16 + ((B mod 16) * 4 + C div 64) div 4 = B"
    "(((B mod 16) * 4 + C div 64) mod 4) * 64 + C mod 64 = C"
    "A div 4 * 4 + ((A mod 4) * 16) div 16 = A"
    "(((A mod 4) * 16 + B div 16) mod 16) * 16 + ((B mod 16) * 4) div 4 = B"
proof -
  have b: "B div 16 < 16" and c: "C div 64 < 4" using assms by simp_all
  show "A div 4 * 4 + ((A mod 4) * 16 + B div 16) div 16 = A" using b by simp
  show "(((A mod 4) * 16 + B div 16) mod 16) * 16 + ((B mod 16) * 4 + C div 64) div 4 = B"
    using b c by simp
  show "(((B mod 16) * 4 + C div 64) mod 4) * 64 + C mod 64 = C" using c by simp
  show "A div 4 * 4 + ((A mod 4) * 16) div 16 = A" by simp
  show "(((A mod 4) * 16 + B div 16) mod 16) * 16 + ((B mod 16) * 4) div 4 = B"
    using b by simp
qed

lemma decode_group:
  assumes "s0 < 64" "s1 < 64" "s2 < 64" "s3 < 64"
  shows "standard_b64decode (b64_char s0 # b64_char s1 # b64_char s2 # b64_char s3 # rest) =
           char_of (s0 * 4 + s1 div 16) # char_of ((s1 mod 16) * 16 + s2 div 4)
             # char_of ((s2 mod 4) * 64 + s3) # standard_b64decode rest"
  using assms by (simp add: b64_val_char b64_char_not_pad)

lemma decode_group2:
  assumes "s0 < 64" "s1 < 64" "s2 < 64"
  shows "standard_b64decode [b64_char s0, b64_char s1, b64_char s2, CHR ''=''] =
           [char_of (s0 * 4 + s1 div 16), char_of ((s1 mod 16) * 16 + s2 div 4)]"
  using assms by (simp add: b64_val_char b64_char_not_pad)

lemma decode_group1:
  assumes "s0 < 64" "s1 < 64"
  shows "standard_b64decode [b64_char s0, b64_char s1, CHR ''='', CHR ''=''] =
           [char_of (s0 * 4 + s1 div 16)]"
  using assms by (simp add: b64_val_char b64_char_not_pad)

lemma b64_roundtrip: "standard_b64decode (standard_b64encode xs) = xs"
proof (induction xs rule: standard_b64encode.induct)
  case 1
  show ?case by simp
next
  case (2 a)
  have a: "(of_char a :: nat) < 256" by simp
  define s0 s1 :: nat where "s0 = of_char a div 4" and "s1 = (of_char a mod 4) * 16"
  have bounds: "s0 < 64" "s1 < 64"
    unfolding s0_def s1_def using sextet_bounds [OF a a a] by simp_all
  have "s0 * 4 + s1 div 16 = of_char a"
    unfolding s0_def s1_def by (rule sextet_join(4) [OF a a a])
  then have "standard_b64decode [b64_char s0, b64_char s1, CHR ''='', CHR ''=''] = [a]"
    by (simp only: decode_group1 [OF bounds] char_of_char)
  then show ?case by (simp only: standard_b64encode.simps s0_def s1_def)
next
  case (3 a b)
  have a: "(of_char a :: nat) < 256" and b: "(of_char b :: nat) < 256" by simp_all
  define s0 s1 s2 :: nat where "s0 = of_char a div 4"
    and "s1 = (of_char a mod 4) * 16 + of_char b div 16" and "s2 = (of_char b mod 16) * 4"
  have bounds: "s0 < 64" "s1 < 64" "s2 < 64"
    unfolding s0_def s1_def s2_def using sextet_bounds [OF a b b] by simp_all
  have "s0 * 4 + s1 div 16 = of_char a"
    unfolding s0_def s1_def by (rule sextet_join(1) [OF a b b])
  moreover have "(s1 mod 16) * 16 + s2 div 4 = of_char b"
    unfolding s1_def s2_def by (rule sextet_join(5) [OF a b b])
  ultimately have "standard_b64decode [b64_char s0, b64_char s1, b64_char s2, CHR ''=''] = [a, b]"
    by (simp only: decode_group2 [OF bounds] char_of_char)
  then show ?case by (simp only: standard_b64encode.simps s0_def s1_def s2_def)
next
  case (4 a b c rest)
  have a: "(of_char a :: nat) < 256" and b: "(of_char b :: nat) < 256"
    and c: "(of_char c :: nat) < 256" by simp_all
  define s0 s1 s2 s3 :: nat where "s0 = of_char a div 4"
    and "s1 = (of_char a mod 4) * 16 + of_char b div 16"
    and "s2 = (of_char b mod 16) * 4 + of_char c div 64" and "s3 = of_char c mod 64"
  have bounds: "s0 < 64" "s1 < 64" "s2 < 64" "s3 < 64"
    unfolding s0_def s1_def s2_def s3_def using sextet_bounds [OF a b c] by simp_all
  have "s0 * 4 + s1 div 16 = of_char a"
    unfolding s0_def s1_def by (rule sextet_join(1) [OF a b c])
  moreover have "(s1 mod 16) * 16 + s2 div 4 = of_char b"
    unfolding s1_def s2_def by (rule sextet_join(2) [OF a b c])
  moreover have "(s2 mod 4) * 64 + s3 = of_char c"
    unfolding s2_def s3_def by (rule sextet_join(3) [OF a b c])
  ultimately have "standard_b64decode
      (b64_char s0 # b64_char s1 # b64_char s2 # b64_char s3 # standard_b64encode rest) =
      a # b # c # rest"
    by (simp only: decode_group [OF bounds] char_of_char 4)
  then show ?case
    by (simp only: standard_b64encode.simps s0_def s1_def s2_def s3_def append_Cons append_Nil)
qed

lemma b64encode_abc: "standard_b64encode ''abc'' = ''YWJj''"
  by code_simp

lemma b64encode_empty_iff: "standard_b64encode xs = [] \<longleftrightarrow> xs = []"
  by (cases xs rule: standard_b64encode.cases) simp_all

subsection \<open>Chunking\<close>

lemma num_chunks_Nil [simp]: "num_chunks [] = 0"
  by (simp add: num_chunks_def)

lemma Suc_le_num_chunks: "Suc i \<le> num_chunks data \<longleftrightarrow> 4096 * i < length data"
proof -
  have "Suc i \<le> (length data + 4095) div 4096 \<longleftrightarrow> Suc i * 4096 \<le> length data + 4095"
    by (rule less_eq_div_iff_mult_less_eq) simp
  then show ?thesis unfolding num_chunks_def by simp linarith
qed

lemma num_chunks_step: "data \<noteq> [] \<Longrightarrow> num_chunks data = Suc (num_chunks (drop 4096 data))"
proof (rule antisym)
  assume ne: "data \<noteq> []"
  have "\<not> Suc (Suc (num_chunks (drop 4096 data))) \<le> num_chunks data"
  proof
    assume "Suc (Suc (num_chunks (drop 4096 data))) \<le> num_chunks data"
    then have "4096 * Suc (num_chunks (drop 4096 data)) < length data"
      by (simp only: Suc_le_num_chunks)
    then have "4096 * num_chunks (drop 4096 data) < length (drop 4096 data)" by simp
    then have "Suc (num_chunks (drop 4096 data)) \<le> num_chunks (drop 4096 data)"
      by (simp only: Suc_le_num_chunks)
    then show False by simp
  qed
  then show "num_chunks data \<le> Suc (num_chunks (drop 4096 data))" by simp
  show "Suc (num_chunks (drop 4096 data)) \<le> num_chunks data"
  proof (cases "num_chunks (drop 4096 data)")
    case 0
    then show ?thesis using ne by (simp add: Suc_le_num_chunks)
  next
    case (Suc j)
    then have "Suc j \<le> num_chunks (drop 4096 data)" by simp
    then have "4096 * j < length (drop 4096 data)" by (simp only: Suc_le_num_chunks)
    then have "4096 * Suc j < length data" by simp
    then show ?thesis unfolding Suc by (simp only: Suc_le_num_chunks)
  qed
qed

lemma num_chunks_gt1: "1 < num_chunks data \<longleftrightarrow> drop 4096 data \<noteq> []"
  using Suc_le_num_chunks [of 1 data] by (simp add: Suc_le_eq not_le)

lemma segment_0 [simp]: "segment data 0 = take 4096 data"
  by (simp add: segment_def)

lemma segment_Suc: "segment data (Suc i) = segment (drop 4096 data) i"
  by (simp add: segment_def add.commute)

lemma chunk_frames_Nil [simp]: "chunk_frames c [] = []"
  by (simp add: chunk_frames_def)

lemma chunk_frames_step:
  assumes "data \<noteq> []"
  shows "chunk_frames c data =
           Frame (dict_set c ''m'' (IntV (if drop 4096 data \<noteq> [] then 1 else 0))) (take 4096 data)
             # chunk_frames [] (drop 4096 data)"
proof -
  define n' where "n' = num_chunks (drop 4096 data)"
  have n: "num_chunks data = Suc n'" using assms by (simp add: num_chunks_step n'_def)
  have upt: "[0..<Suc n'] = 0 # map Suc [0..<n']"
    by (simp only: upt_conv_Cons zero_less_Suc map_Suc_upt)
  have flag: "(0 < n') = (drop 4096 data \<noteq> [])"
    using num_chunks_gt1 [of data] by (simp add: n)
  show ?thesis
    unfolding chunk_frames_def n upt
    by (simp add: segment_Suc flag flip: n'_def)
qed

lemma write_chunks_frames: "snd (write_chunks c data out) = out @ chunk_frames c data"
proof (induction c data out rule: write_chunks.induct)
  case (1 c data out)
  show ?case
  proof (cases "data = []")
    case True
    then show ?thesis by (subst write_chunks.simps) simp
  next
    case False
    have "snd (write_chunks c data out) =
            snd (write_chunks [] (drop 4096 data)
              (write_gr_cmd (dict_set c ''m'' (IntV (if drop 4096 data \<noteq> [] then 1 else 0)))
                 (take 4096 data) out))"
      using False by (subst write_chunks.simps) simp
    also have "\<dots> = (out @ [Frame (dict_set c ''m'' (IntV (if drop 4096 data \<noteq> [] then 1 else 0)))
                 (take 4096 data)]) @ chunk_frames [] (drop 4096 data)"
      using 1 [OF False] by (simp add: write_gr_cmd_def)
    finally show ?thesis by (simp add: chunk_frames_step [OF False])
  qed
qed

lemma length_chunk_frames [simp]: "length (chunk_frames c data) = num_chunks data"
  by (simp add: chunk_frames_def)

lemma nth_chunk_frames:
  "i < num_chunks data \<Longrightarrow> chunk_frames c data ! i =
     Frame (dict_set (if i = 0 then c else []) ''m''
             (IntV (if i + 1 < num_chunks data then 1 else 0))) (segment data i)"
  by (simp add: chunk_frames_def)

lemma concat_chunk_frames: "concat (map frame_payload (chunk_frames c data)) = data"
proof (induction "length data" arbitrary: c data rule: less_induct)
  case less
  show ?case
  proof (cases "data = []")
    case True
    then show ?thesis by simp
  next
    case False
    then have "length (drop 4096 data) < length data" by simp
    from less [OF this] show ?thesis by (simp add: chunk_frames_step [OF False])
  qed
qed

lemma length_segment_full:
  assumes "i + 1 < num_chunks data"
  shows "length (segment data i) = 4096"
proof -
  have "Suc (Suc i) \<le> num_chunks data" using assms by simp
  then have "4096 * Suc i < length data" by (simp only: Suc_le_num_chunks)
  then show ?thesis by (simp add: segment_def)
qed

lemma length_segment_last:
  assumes "i + 1 = num_chunks data"
  shows "0 < length (segment data i)" "length (segment data i) \<le> 4096"
proof -
  have "Suc i \<le> num_chunks data" using assms by simp
  then have "4096 * i < length data" by (simp only: Suc_le_num_chunks)
  then show "0 < length (segment data i)" by (simp add: segment_def)
  show "length (segment data i) \<le> 4096" by (simp add: segment_def)
qed

lemma dict_get_set [simp]: "dict_get (dict_set c k v) k = Some v"
  by (induction c) (auto simp: dict_get_def)

lemma dict_get_set_other: "k' \<noteq> k \<Longrightarrow> dict_get (dict_set c k v) k' = dict_get c k'"
  by (induction c) (auto simp: dict_get_def)

lemma num_chunks_pos: "data \<noteq> [] \<Longrightarrow> 0 < num_chunks data"
  by (simp add: num_chunks_step)

text \<open>An empty pre-encoded payload: no frame is written, whatever the command.\<close>

lemma write_chunked_empty_png: "snd (write_chunked deflate ''PNG'' c [] out) = out"
  by (simp add: write_chunked_def write_chunks.simps)

section \<open>Claims about the layout engine\<close>

text \<open>
  C6, as stated: \<open>fit(w, h, 0, 0)\<close> returns \<open>(w, h)\<close> unchanged. It does not: with a
  zero bound every pass scales by \<open>0 / h = 0.0\<close>, and a 5 by 7 image comes out as 0 by 0.
\<close>

theorem fit_zero_bounds_counterexample: "fit_image 5 7 0 0 \<noteq> Inr (5, 7)"
  using fit_image_zero_bounds [of 5 7] by simp

text \<open>
  C6, amended: for every native size \<open>(w, h)\<close> and every bound \<open>(W, H)\<close> with
  \<open>W \<ge> max(w, h)\<close> and \<open>H \<ge> max(w, h)\<close>, \<open>fit_image\<close> returns \<open>(w, h)\<close> unchanged;
  with the bound \<open>(0, 0)\<close> it returns \<open>(0, 0)\<close> for every non-negative size (up to
  \<open>2 ^ 1023\<close>, where \<open>float\<close> still converts the integer).
\<close>

theorem fit_noop:
  "(max w h \<le> W \<and> max w h \<le> H \<longrightarrow> fit_image w h W H = Inr (w, h)) \<and>
   (0 \<le> w \<and> w \<le> 2 ^ 1023 \<and> 0 \<le> h \<and> h \<le> 2 ^ 1023 \<longrightarrow> fit_image w h 0 0 = Inr (0, 0))"
  by (simp add: fit_image_noop fit_image_zero_bounds)

theorem fit_noop_witness:
  "fit_image 100 100 800 400 = Inr (100, 100) \<and> fit_image 100 100 0 0 = Inr (0, 0)"
  using fit_noop [of 100 100 800 400] by simp




section \<open>Claims about the transport encoder\<close>

text \<open>
  C4, as stated: for every mode and every payload exactly one frame, the last, carries
  \<open>m = 0\<close>. For an empty pre-encoded payload the encoded text is empty, the loop body
  never runs and no frame is written at all.
\<close>

theorem write_chunked_empty_counterexample:
  "snd (write_chunked toy_compress ''PNG''
          [(''a'', StrV ''T''), (''S'', IntV 0), (''f'', StrV ''100'')] [] []) = []"
  by (simp add: write_chunked_def write_chunks.simps)

text \<open>
  C4, amended: for every mode and every payload whose encoded text \<open>enc\<close> (the base64
  of the payload, DEFLATE-compressed first unless the mode is \<open>PNG\<close>) is not empty,
  \<open>write_chunked\<close> appends one frame per segment to standard output: frame \<open>i\<close> carries
  the bytes \<open>4096 * i\<close> up to \<open>4096 * (i + 1)\<close> of \<open>enc\<close>, every frame but the last has
  exactly 4096 bytes, the last has between 1 and 4096, together they are \<open>enc\<close>, and
  \<open>m\<close> is 0 on the last frame and 1 on every other. (For an empty \<open>enc\<close> no frame is
  written.)
\<close>

theorem write_chunked_framing:
  assumes "enc = standard_b64encode (if mode \<noteq> ''PNG'' then deflate data else data)"
    and "enc \<noteq> []"
  shows "\<exists>fs. snd (write_chunked deflate mode c data out) = out @ fs
           \<and> fs \<noteq> [] \<and> length fs = num_chunks enc
           \<and> (\<forall>i<length fs. \<exists>c'. fs ! i = Frame c' (segment enc i))
           \<and> (\<forall>i<length fs. i + 1 < length fs \<longrightarrow> length (frame_payload (fs ! i)) = 4096)
           \<and> 0 < length (frame_payload (last fs)) \<and> length (frame_payload (last fs)) \<le> 4096
           \<and> concat (map frame_payload fs) = enc
           \<and> (\<forall>i<length fs. dict_get (frame_cmd (fs ! i)) ''m''
                  = Some (IntV (if i + 1 = length fs then 0 else 1)))"
proof -
  define c' where "c' = (if mode \<noteq> ''PNG'' then dict_set c ''o'' (StrV ''z'') else c)"
  define fs where "fs = chunk_frames c' enc"
  have n: "0 < num_chunks enc" using assms(2) by (rule num_chunks_pos)
  have len: "length fs = num_chunks enc" by (simp add: fs_def)
  have nth: "fs ! i = Frame (dict_set (if i = 0 then c' else []) ''m''
               (IntV (if i + 1 < num_chunks enc then 1 else 0))) (segment enc i)"
    if "i < num_chunks enc" for i
    unfolding fs_def using that by (rule nth_chunk_frames)
  have 1: "snd (write_chunked deflate mode c data out) = out @ fs"
    by (simp add: write_chunked_def write_chunks_frames assms(1) c'_def fs_def)
  have 2: "fs \<noteq> []" using n len by auto
  have 3: "\<forall>i<length fs. \<exists>c'. fs ! i = Frame c' (segment enc i)"
    using nth len by simp
  have 4: "\<forall>i<length fs. i + 1 < length fs \<longrightarrow> length (frame_payload (fs ! i)) = 4096"
    using nth len by (simp add: length_segment_full)
  have lst: "last fs = fs ! (num_chunks enc - 1)"
    using 2 len by (simp add: last_conv_nth)
  have "frame_payload (last fs) = segment enc (num_chunks enc - 1)"
    unfolding lst using n by (simp add: nth)
  then have 5: "0 < length (frame_payload (last fs))" "length (frame_payload (last fs)) \<le> 4096"
    using length_segment_last [of "num_chunks enc - 1" enc] n by simp_all
  have 6: "concat (map frame_payload fs) = enc"
    unfolding fs_def by (rule concat_chunk_frames)
  have 7: "\<forall>i<length fs. dict_get (frame_cmd (fs ! i)) ''m''
             = Some (IntV (if i + 1 = length fs then 0 else 1))"
    using len by (auto simp: nth)
  from 1 2 len 3 4 5 6 7 show ?thesis by blast
qed

theorem write_chunked_framing_witness:
  "\<exists>fs. snd (write_chunked toy_compress ''PNG'' [(''a'', StrV ''T'')] ''abc'' []) = [] @ fs
      \<and> fs \<noteq> [] \<and> length fs = num_chunks ''YWJj''
      \<and> (\<forall>i<length fs. \<exists>c'. fs ! i = Frame c' (segment ''YWJj'' i))
      \<and> (\<forall>i<length fs. i + 1 < length fs \<longrightarrow> length (frame_payload (fs ! i)) = 4096)
      \<and> 0 < length (frame_payload (last fs)) \<and> length (frame_payload (last fs)) \<le> 4096
      \<and> concat (map frame_payload fs) = ''YWJj''
      \<and> (\<forall>i<length fs. dict_get (frame_cmd (fs ! i)) ''m''
             = Some (IntV (if i + 1 = length fs then 0 else 1)))"
proof (rule write_chunked_framing)
  show "''YWJj'' =
          standard_b64encode (if ''PNG'' \<noteq> ''PNG'' then toy_compress ''abc'' else ''abc'')"
    using b64encode_abc by simp
  show "''YWJj'' \<noteq> []" by simp
qed

text \<open>
  C5: for every payload, concatenating in order the payloads of the frames that
  \<open>write_chunked\<close> appends, base64-decoding the concatenation and, in every mode but
  \<open>PNG\<close>, inflating the result gives the original payload; and the first frame carries
  the compression flag \<open>o = z\<close> in exactly those modes (in \<open>PNG\<close> mode it carries what the
  caller's command had under \<open>o\<close>). \<open>inflate\<close> is any inverse of the compressor.
\<close>

theorem write_chunked_reassembly:
  assumes "\<And>d. inflate (deflate d) = d"
  shows "\<exists>fs. snd (write_chunked deflate mode c data out) = out @ fs
           \<and> (if mode \<noteq> ''PNG''
               then inflate (standard_b64decode (concat (map frame_payload fs)))
               else standard_b64decode (concat (map frame_payload fs))) = data
           \<and> (\<forall>f \<in> set (take 1 fs). dict_get (frame_cmd f) ''o''
                  = (if mode \<noteq> ''PNG'' then Some (StrV ''z'') else dict_get c ''o''))"
proof -
  define c' where "c' = (if mode \<noteq> ''PNG'' then dict_set c ''o'' (StrV ''z'') else c)"
  define enc where "enc = standard_b64encode (if mode \<noteq> ''PNG'' then deflate data else data)"
  define fs where "fs = chunk_frames c' enc"
  have 1: "snd (write_chunked deflate mode c data out) = out @ fs"
    by (simp add: write_chunked_def write_chunks_frames enc_def c'_def fs_def)
  have "concat (map frame_payload fs) = enc"
    unfolding fs_def by (rule concat_chunk_frames)
  then have 2: "(if mode \<noteq> ''PNG''
               then inflate (standard_b64decode (concat (map frame_payload fs)))
               else standard_b64decode (concat (map frame_payload fs))) = data"
    by (simp add: enc_def b64_roundtrip assms)
  have 3: "\<forall>f \<in> set (take 1 fs). dict_get (frame_cmd f) ''o''
             = (if mode \<noteq> ''PNG'' then Some (StrV ''z'') else dict_get c ''o'')"
  proof (cases "enc = []")
    case True
    then show ?thesis by (simp add: fs_def)
  next
    case False
    then show ?thesis
      by (simp add: fs_def chunk_frames_step c'_def dict_get_set_other)
  qed
  from 1 2 3 show ?thesis by blast
qed

theorem write_chunked_reassembly_witness:
  "\<exists>fs. snd (write_chunked toy_compress ''RGB'' [(''a'', StrV ''T'')] ''abc'' []) = [] @ fs
      \<and> (if ''RGB'' \<noteq> ''PNG''
          then tl (standard_b64decode (concat (map frame_payload fs)))
          else standard_b64decode (concat (map frame_payload fs))) = ''abc''
      \<and> (\<forall>f \<in> set (take 1 fs). dict_get (frame_cmd f) ''o''
             = (if ''RGB'' \<noteq> ''PNG'' then Some (StrV ''z'')
                else dict_get [(''a'', StrV ''T'')] ''o''))"
  by (rule write_chunked_reassembly) (simp add: toy_compress_def)

section \<open>Claims about placement\<close>

text \<open>
  C2: for an image too wide for the terminal, placement reserves the rows needed at the
  corrected (re-fitted) height and reports that height modulo the cell height. The code
  computes the re-fit and drops it: on a terminal of 50 rows and 100 columns, 1000 by 800
  pixels (cells of 10 by 16), a 2000 by 1000 image re-fits to 1000 by 500, which needs
  32 rows and leaves \<open>Y = 4\<close>; \<open>set_cursor\<close> reports \<open>r = 63\<close> and \<open>Y = 8\<close>, the values
  of the native height 1000. The column count is the terminal's, no \<open>X\<close> is set and
  nothing is written.
\<close>

theorem set_cursor_uses_native_height:
  "set_cursor [] 2000 1000 env0 st0
     = (Inr [(''c'', IntV 100), (''r'', IntV 63), (''Y'', IntV 8)],
        st0\<lparr>ss_ans := Some \<lparr>sz_rows = 50, sz_cols = 100, sz_width = 1000, sz_height = 800\<rparr>\<rparr>)
   \<and> fit_image 2000 1000 1000 800 = Inr (1000, 500)
   \<and> fit_image 2000 1000 1000 1000 = Inr (1000, 500)
   \<and> ceil_div 500 16 = Inr 32 \<and> (500 :: int) mod 16 = 4"
  by code_simp

theorem set_cursor_uses_native_height_witness:
  "map_sum id (\<lambda>c. (dict_get c ''r'', dict_get c ''Y'', dict_get c ''X''))
     (fst (set_cursor [] 2000 1000 env0 st0))
     = Inr (Some (IntV 63), Some (IntV 8), None)
   \<and> stdout (snd (set_cursor [] 2000 1000 env0 st0)) = []"
  using set_cursor_uses_native_height by (simp add: dict_get_def st0_def)

section \<open>Claims about capability negotiation\<close>

text \<open>What the polling loop does: it ends at the first test of its condition at which
  the timeout has elapsed or either of the two ids is resolved.\<close>

lemma poll_loop_exit:
  "\<not> t < of_int w \<or> snd rr 1 \<noteq> None \<or> snd rr 2 \<noteq> None
     \<Longrightarrow> poll_loop w ((t, s) # ps) rr = Some (Inr (snd rr))"
  by auto

lemma poll_loop_no_input:
  assumes "\<forall>p \<in> set ps. fst p < of_int w \<and> snd p = NoInput" "\<not> t < of_int w"
  shows "poll_loop w (ps @ (t, s) # rest) rr = Some (Inr (snd rr))"
  using assms by (induction ps) (auto split: sel.splits)

text \<open>
  With nothing received and no call raising, \<open>detect_support\<close> answers false for both
  probes at the first test at which the timeout has elapsed, and the terminal is as it
  was.
\<close>

lemma detect_support_timeout:
  assumes "\<forall>s. \<not> raises e s"
    and "polls e = ps @ (t, s) # rest"
    and "\<forall>p \<in> set ps. fst p < of_int w \<and> snd p = NoInput" "\<not> t < of_int w"
  shows "detect_support w e st =
           Some (Inr False,
                 st\<lparr>stdout := stdout st @ [Raw (notice w)] @ probes e @ [Raw [ESC, CHR ''['', CHR ''J'']],
                    has_files := Some False\<rparr>)"
proof -
  have "poll_loop w (polls e) ([], Map.empty) = Some (Inr Map.empty)"
    unfolding assms(2) using poll_loop_no_input [OF assms(3,4), of s rest "([], Map.empty)"] by simp
  then show ?thesis
    using assms(1) by (simp add: detect_support_def negotiate_def cleanup_def)
qed

text \<open>
  The terminal is restored on every path on which neither the calls between
  \<open>F_SETFL\<close> and the \<open>try\<close> nor the calls of the \<open>finally\<close> clause raise: this covers
  the normal return and every exception raised inside the \<open>try\<close>.
\<close>

lemma detect_support_restores:
  assumes "\<not> raises e PrintNotice" "\<not> raises e Setraw" "\<not> raises e Erase"
    "\<not> raises e Tcsetattr" "\<not> raises e RestoreFl"
    and "detect_support w e st = Some (r, st')"
  shows "tty_attrs st' = tty_attrs st \<and> stdin_flags st' = stdin_flags st"
  using assms
  by (auto simp: detect_support_def negotiate_def cleanup_def
      split: if_splits option.splits sum.splits prod.splits)

text \<open>
  C1: polling continues while exactly one id is resolved. The loop's condition is
  \<open>1 not in responses and 2 not in responses\<close>: with a timeout of 10 seconds, the reply
  to probe 1 read at the first iteration and the reply to probe 2 ready at 0.1 seconds,
  the loop ends at its second test with only id 1 resolved; the second reply is never
  read.
\<close>

theorem poll_loop_stops_after_one_reply:
  "poll_loop 10 [(0, Input reply1), (1 / 10, Input reply2)] ([], Map.empty)
     = Some (Inr [1 \<mapsto> True])"
  by (simp add: read_def parse_responses_def reply1_def finditer.simps)

text \<open>Through \<open>detect_support\<close>: the protocol is reported, file transfer is not.\<close>

theorem poll_loop_stops_after_one_reply_witness:
  "map_option (\<lambda>(r, st). (r, has_files st)) (detect_support 10 env_one_reply st0)
     = Some (Inr True, Some False)"
  using poll_loop_stops_after_one_reply
  by (simp add: detect_support_def negotiate_def cleanup_def env_one_reply_def env0_def)

text \<open>
  C3: on every exit path the terminal attributes and the non-blocking flag are as
  before the call. When \<open>tty.setraw\<close> raises, the flag \<open>O_NONBLOCK\<close> (2048) stays set
  in the status flags (2050 instead of 2): the call is before the \<open>try\<close>. When the erase
  write of the \<open>finally\<close> clause raises, the attributes stay raw and the flag stays set:
  the restoring calls come after it.
\<close>

theorem detect_support_leaves_terminal_changed:
  "map_option (\<lambda>(r, st). (r, tty_attrs st, stdin_flags st)) (detect_support 10 env_setraw_fails st0)
     = Some (Inl OSError, [1280, 5, 191, 35387], 2050)
   \<and> map_option (\<lambda>(r, st). (r, tty_attrs st, stdin_flags st)) (detect_support 10 env_erase_fails st0)
     = Some (Inl OSError, [0, 0, 0, 0], 2050)
   \<and> (tty_attrs st0, stdin_flags st0) = ([1280, 5, 191, 35387], 2)"
  by code_simp

theorem detect_support_leaves_terminal_changed_witness:
  "map_option (\<lambda>(r, st). stdin_flags st = stdin_flags st0) (detect_support 10 env_setraw_fails st0)
     = Some False
   \<and> map_option (\<lambda>(r, st). tty_attrs st = tty_attrs st0) (detect_support 10 env_erase_fails st0)
     = Some False"
  using detect_support_leaves_terminal_changed
  by (auto simp: map_option_case split: option.splits)

section \<open>Claims about the driver\<close>

text \<open>
  C8: the program fails fast with the size-unsupported error when the pixel width or
  the pixel height is zero, before any image processing or placement arithmetic.
  \<open>main\<close> tests the width only. On a terminal that reports 640 pixels of width and 0 of
  height (24 rows, 80 columns) the run negotiates and opens the image; for the image
  \<open>wide.png\<close>, wider than the terminal, \<open>set_cursor\<close> then computes
  \<open>ch = int(0 / 24) = 0\<close> and \<open>height / ch\<close> raises \<open>ZeroDivisionError\<close>, which nothing
  catches; for a small image the run ends normally.
\<close>

theorem main_zero_height_not_detected:
  "map_option (\<lambda>(r, st). (r, opened st)) (main [''icat'', ''wide.png''] env_h0 st0)
     = Some (Inl ZeroDivisionError, [''wide.png''])
   \<and> map_option (\<lambda>(r, st). (r, opened st)) (main [''icat'', ''pics/a.png''] env_h0 st0)
     = Some (Inr (), [''pics/a.png''])"
  by code_simp

theorem main_zero_height_not_detected_witness:
  "map_option fst (main [''icat'', ''wide.png''] env_h0 st0) \<noteq> Some (Inl size_unsupported)
   \<and> map_option fst (main [''icat'', ''pics/a.png''] env_h0 st0) \<noteq> Some (Inl size_unsupported)"
  using main_zero_height_not_detected
  by (auto simp: map_option_case size_unsupported_def split: option.splits)

text \<open>
  The guard that is there: when the reported pixel width is zero, the program, run in a
  terminal with no geometry cached, fails with the size-unsupported error before
  arguments are parsed, before negotiation and before any image is processed: nothing
  is written and no file is opened.
\<close>

lemma main_zero_width_fails_fast:
  assumes "isatty_stdout e" "isatty_stdin e" "tiocgwinsz e = Inr ws" "ws_xpixel ws = 0"
    and "ss_ans st = None"
  shows "main args e st =
           Some (Inl size_unsupported,
                 st\<lparr>sigwinch := Some sigwinch_handler, ss_ans := Some (unpack_HHHH ws)\<rparr>)"
  using assms by (simp add: main_def screen_size_def query_winsize_def unpack_HHHH_def)

lemma main_zero_width_example:
  "main [''icat'', ''pics/a.png'']
     (env0\<lparr>tiocgwinsz := Inr \<lparr>ws_row = 24, ws_col = 80, ws_xpixel = 0, ws_ypixel = 0\<rparr>\<rparr>) st0
   = Some (Inl size_unsupported,
           st0\<lparr>sigwinch := Some sigwinch_handler,
              ss_ans := Some (unpack_HHHH \<lparr>ws_row = 24, ws_col = 80, ws_xpixel = 0, ws_ypixel = 0\<rparr>)\<rparr>)"
  by (rule main_zero_width_fails_fast) (simp_all add: env0_def st0_def)

text \<open>
  C9: each image found in a directory is processed under its own path. The loop is
  \<open>for x, mt in scan(item): process(item, mt)\<close>: for the directory \<open>pics\<close> holding
  \<open>a.png\<close> the scan yields \<open>pics/a.png\<close>, and the decoder is given \<open>pics\<close>, which
  fails to open.
\<close>

theorem directory_item_reopens_root:
  "scan ''pics'' env0 = [(''pics/a.png'', ''image/png'')]
   \<and> process_item ''pics'' env0 st0
       = (Inl (OpenFailed ''pics'' ''cannot identify image file''), st0\<lparr>opened := [''pics'']\<rparr>)"
  by code_simp

theorem directory_item_reopens_root_witness:
  "opened (snd (process_item ''pics'' env0 st0)) = [''pics'']
   \<and> ''pics/a.png'' \<notin> set (opened (snd (process_item ''pics'' env0 st0)))"
  using directory_item_reopens_root by simp

text \<open>
  C10: the resize handler, called with the signal number and the frame, recomputes the
  geometry. The handler is \<open>lambda: screen_size(refresh=True)\<close>, a callable with no
  parameters: the call with two arguments raises \<open>TypeError\<close> and the cache is not
  touched.
\<close>

theorem sigwinch_handler_raises:
  "deliver_sigwinch e (st\<lparr>sigwinch := Some sigwinch_handler\<rparr>)
     = (Inl TypeError, st\<lparr>sigwinch := Some sigwinch_handler\<rparr>)"
  by (simp add: deliver_sigwinch_def sigwinch_handler_def)

text \<open>A handler that takes the two arguments would refresh the cache.\<close>

lemma two_parameter_handler_refreshes:
  "tiocgwinsz e = Inr ws \<Longrightarrow>
   deliver_sigwinch e (st\<lparr>sigwinch := Some (Lambda 2 ScreenSizeRefresh)\<rparr>)
     = (Inr (), st\<lparr>sigwinch := Some (Lambda 2 ScreenSizeRefresh), ss_ans := Some (unpack_HHHH ws)\<rparr>)"
  by (simp add: deliver_sigwinch_def screen_size_def query_winsize_def bindS_def lift_def
      split: option.splits)

text \<open>\<open>main\<close> installs the handler first; here on a run that is not in a terminal.\<close>

theorem sigwinch_handler_raises_witness:
  "main [''icat''] (env0\<lparr>isatty_stdout := False\<rparr>) st0
     = Some (Inl (SystemExit (StrV
         ''Must be run in a terminal, stdout is currently not a terminal'')),
             st0\<lparr>sigwinch := Some sigwinch_handler\<rparr>)
   \<and> deliver_sigwinch env0 (st0\<lparr>sigwinch := Some sigwinch_handler\<rparr>)
     = (Inl TypeError, st0\<lparr>sigwinch := Some sigwinch_handler\<rparr>)
   \<and> ss_ans (snd (deliver_sigwinch env0 (st0\<lparr>sigwinch := Some sigwinch_handler\<rparr>))) = None"
  using sigwinch_handler_raises [of env0 st0]
  by (simp add: main_def env0_def st0_def)

end
